theory Spec2Isabelle
  imports Complex_Main "HOL-Library.AList"
begin

section \<open>Python values, JSON and errors\<close>

text \<open>
  Bytes are \<^typ>\<open>char\<close> (an 8-bit value); a Python \<open>str\<close> is modelled by a \<^typ>\<open>string\<close> whose
  characters are the code points below 256.  Exceptions are values of \<open>error\<close>.
\<close>

type_synonym bytes = "char list"

datatype error =
    BluetoothError
  | OverflowError
  | JSONDecodeError
  | UnicodeDecodeError
  | AttributeError
  | TypeError
  | KeyError
  | IOError

text \<open>The values \<open>json.loads\<close> returns and \<open>json.dumps\<close> accepts (no floats occur in the
  protocol).  \<open>JNull\<close> is Python's \<open>None\<close>; a \<open>JDict\<close> lists its items in insertion order.\<close>

datatype json =
    JNull
  | JBool bool
  | JInt int
  | JStr string
  | JList "json list"
  | JDict "(string \<times> json) list"

text \<open>Python truthiness (\<open>if x\<close>, \<open>not x\<close>).\<close>

fun truthy :: "json \<Rightarrow> bool" where
  "truthy JNull = False"
| "truthy (JBool b) = b"
| "truthy (JInt i) = (i \<noteq> 0)"
| "truthy (JStr s) = (s \<noteq> [])"
| "truthy (JList xs) = (xs \<noteq> [])"
| "truthy (JDict kvs) = (kvs \<noteq> [])"

text \<open>\<open>d.get(key, default)\<close>: only a dict has the method; on any other value the attribute
  lookup raises \<open>AttributeError\<close>.\<close>

fun py_get :: "json \<Rightarrow> string \<Rightarrow> json \<Rightarrow> error + json" where
  "py_get (JDict kvs) k dflt = Inr (case map_of kvs k of None \<Rightarrow> dflt | Some v \<Rightarrow> v)"
| "py_get _ k dflt = Inl AttributeError"

subsection \<open>\<open>json.dumps\<close> with its default settings\<close>

definition hex_digit :: "nat \<Rightarrow> char" where
  "hex_digit n = (''0123456789abcdef'') ! (n mod 16)"

text \<open>\<open>ensure_ascii\<close> escaping of one character.\<close>

definition escape_char :: "char \<Rightarrow> string" where
  "escape_char c =
     (if c = CHR ''\"'' then [CHR 0x5C, CHR ''\"'']
      else if c = CHR 0x5C then [CHR 0x5C, CHR 0x5C]
      else if c = CHR 0x0A then [CHR 0x5C, CHR ''n'']
      else if c = CHR 0x0D then [CHR 0x5C, CHR ''r'']
      else if c = CHR 0x09 then [CHR 0x5C, CHR ''t'']
      else if c = CHR 0x08 then [CHR 0x5C, CHR ''b'']
      else if c = CHR 0x0C then [CHR 0x5C, CHR ''f'']
      else if 32 \<le> (of_char c :: nat) \<and> (of_char c :: nat) \<le> 126 then [c]
      else [CHR 0x5C, CHR ''u'', CHR ''0'', CHR ''0'',
            hex_digit ((of_char c :: nat) div 16), hex_digit (of_char c :: nat)])"

definition dumps_str :: "string \<Rightarrow> string" where
  "dumps_str s = [CHR ''\"''] @ concat (map escape_char s) @ [CHR ''\"'']"

fun show_nat :: "nat \<Rightarrow> string" where
  "show_nat n =
     (if n < 10 then [char_of (48 + n)]
      else show_nat (n div 10) @ [char_of (48 + n mod 10)])"

declare show_nat.simps [simp del]

definition show_int :: "int \<Rightarrow> string" where
  "show_int i = (if i < 0 then CHR ''-'' # show_nat (nat (- i)) else show_nat (nat i))"

fun join :: "string \<Rightarrow> string list \<Rightarrow> string" where
  "join sep [] = []"
| "join sep [x] = x"
| "join sep (x # y # ys) = x @ sep @ join sep (y # ys)"

fun json_dumps :: "json \<Rightarrow> string" where
  "json_dumps JNull = ''null''"
| "json_dumps (JBool b) = (if b then ''true'' else ''false'')"
| "json_dumps (JInt i) = show_int i"
| "json_dumps (JStr s) = dumps_str s"
| "json_dumps (JList xs) = ''['' @ join '', '' (map json_dumps xs) @ '']''"
| "json_dumps (JDict kvs) =
     ''{'' @ join '', '' (map (\<lambda>kv. dumps_str (fst kv) @ '': '' @ json_dumps (snd kv)) kvs) @ ''}''"

text \<open>\<open>n.to_bytes(4, 'big')\<close> raises \<open>OverflowError\<close> from \<open>2 ^ 32\<close> on;
  \<open>int.from_bytes(bs, 'big')\<close>.\<close>

definition to_bytes4 :: "nat \<Rightarrow> error + bytes" where
  "to_bytes4 n =
     (if n < 2 ^ 32
      then Inr [char_of (n div 2 ^ 24), char_of (n div 2 ^ 16), char_of (n div 2 ^ 8), char_of n]
      else Inl OverflowError)"

definition from_bytes :: "bytes \<Rightarrow> nat" where
  "from_bytes bs = foldl (\<lambda>a b. a * 256 + of_char b) 0 bs"

section \<open>Sockets\<close>

text \<open>
  A connected socket.  \<open>rx\<close> is what the peer and the transport will deliver, in order:
  \<open>Data bs\<close> is a segment that arrives, \<open>RxError\<close> a read that raises \<open>BluetoothError\<close>
  (a timeout, a reset), and the end of the list is the peer's orderly close, after which
  \<open>recv\<close> returns \<open>b''\<close>.  \<open>tx\<close> collects the bytes that were transmitted.  \<open>tx_plan\<close> says what
  the coming \<open>send\<close> calls do, one event for each call: \<open>Accept n\<close> transmits at most the first
  \<open>n\<close> bytes of the data and returns their number, \<open>TxError\<close> raises \<open>BluetoothError\<close>; when the
  plan is used up, a \<open>send\<close> transmits all of its data.
\<close>

datatype rx_event = Data bytes | RxError

datatype tx_event = Accept nat | TxError

record socket =
  rx :: "rx_event list"
  tx :: bytes
  tx_plan :: "tx_event list"
  closed :: bool

fun rx_recv :: "rx_event list \<Rightarrow> nat \<Rightarrow> (error + bytes) \<times> rx_event list" where
  "rx_recv [] n = (Inr [], [])"
| "rx_recv (RxError # es) n = (Inl BluetoothError, es)"
| "rx_recv (Data bs # es) n =
     (if bs = [] then rx_recv es n
      else if length bs \<le> n then (Inr bs, es)
      else (Inr (take n bs), Data (drop n bs) # es))"

definition recv :: "socket \<Rightarrow> nat \<Rightarrow> (error + bytes) \<times> socket" where
  "recv sock n = (case rx_recv (rx sock) n of (r, es) \<Rightarrow> (r, sock\<lparr>rx := es\<rparr>))"

text \<open>\<open>sock.send(data)\<close>: the number of bytes transmitted, which may be less than
  \<open>len(data)\<close>, or the exception.\<close>

definition send :: "socket \<Rightarrow> bytes \<Rightarrow> (error + nat) \<times> socket" where
  "send sock bs =
     (case tx_plan sock of
        [] \<Rightarrow> (Inr (length bs), sock\<lparr>tx := tx sock @ bs\<rparr>)
      | TxError # plan \<Rightarrow> (Inl BluetoothError, sock\<lparr>tx_plan := plan\<rparr>)
      | Accept n # plan \<Rightarrow>
          (Inr (min n (length bs)), sock\<lparr>tx := tx sock @ take n bs, tx_plan := plan\<rparr>))"

definition close :: "socket \<Rightarrow> socket" where
  "close sock = sock\<lparr>closed := True\<rparr>"

text \<open>\<open>_receive_exact\<close>: the loop of \<open>recv\<close> calls; \<open>Inr None\<close> is its \<open>return None\<close>.\<close>

function receive_exact :: "socket \<Rightarrow> nat \<Rightarrow> bytes \<Rightarrow> (error + bytes option) \<times> socket" where
  "receive_exact sock num_bytes data =
     (if length data < num_bytes then
        (case recv sock (num_bytes - length data) of
           (Inl e, sock') \<Rightarrow> (Inl e, sock')
         | (Inr chunk, sock') \<Rightarrow>
             if chunk = [] then (Inr None, sock')
             else receive_exact sock' num_bytes (data @ chunk))
      else (Inr (Some data), sock))"
  by pat_completeness auto
termination
  by (relation "measure (\<lambda>(sock, num_bytes, data). num_bytes - length data)")
     (auto simp: neq_Nil_conv)


section \<open>The environment and the state of \<open>P2PBluetoothNetwork\<close>\<close>

text \<open>
  Library code the class calls is a parameter: \<open>json_loads\<close> stands for
  \<open>json.loads(data.decode('utf-8'))\<close> (raising \<open>UnicodeDecodeError\<close> or \<open>JSONDecodeError\<close>),
  \<open>sha256_hexdigest\<close> for \<open>hashlib.sha256(...).hexdigest()\<close>, and \<open>json_dump_db\<close> for the text
  that \<open>json.dump(self.shared_files, f, indent=2)\<close> writes for a catalog.
\<close>

record file_info =
  fi_path :: string
  fi_size :: int
  fi_hash :: string
  fi_added_time :: int

record env =
  json_loads :: "bytes \<Rightarrow> error + json"
  sha256_hexdigest :: "bytes \<Rightarrow> string"
  json_dump_db :: "(string \<times> file_info) list \<Rightarrow> bytes"

text \<open>One constructor per \<open>self._log(...)\<close> call of the class, with the values it formats.\<close>

datatype log_entry =
    LogInvalidJSON
  | LogBluetoothClientHandlerError error
  | LogClientHandlerError error
  | LogUnknownMessageType json
  | LogErrorSendingFile json error
  | LogServiceNotFound string
  | LogBluetoothErrorGettingFiles string error
  | LogFailedToGetFiles string error
  | LogFileRequestFailed json
  | LogIncompleteTransfer nat json
  | LogBluetoothErrorDownloading string error
  | LogFailedToDownload string string error
  | LogFailedToSend error
  | LogFailedToReceive error

datatype event =
    PeerDisconnected string string
  | FileReceived string string

text \<open>
  The object's fields, the catalog (\<open>file_manager.shared_files\<close>, and \<open>shared_files_db\<close>, the
  path of the database file \<open>shared_files.json\<close>), the files on disk (\<open>fs\<close>, path to content;
  \<open>read_only\<close> lists the paths that \<open>open\<close> refuses to open for writing, raising \<open>IOError\<close>), the
  \<open>_log\<close> calls and the callbacks invoked.  A callback field is \<open>True\<close> when the callback
  is installed.
\<close>

record net_state =
  is_running :: bool
  connections :: "nat list"
  shared_files :: "(string \<times> file_info) list"
  shared_files_db :: string
  fs :: "string \<rightharpoonup> bytes"
  read_only :: "string list"
  log :: "log_entry list"
  events :: "event list"
  on_peer_disconnected :: bool
  on_file_received :: bool

definition log_msg :: "net_state \<Rightarrow> log_entry \<Rightarrow> net_state" where
  "log_msg st e = st\<lparr>log := log st @ [e]\<rparr>"

subsection \<open>Framing: \<open>_send_message\<close> and \<open>_receive_message\<close>\<close>

definition send_message :: "net_state \<Rightarrow> socket \<Rightarrow> json \<Rightarrow> bool \<times> net_state \<times> socket" where
  "send_message st sock message =
     (let message_data = json_dumps message;
          message_length = length message_data
      in case to_bytes4 message_length of
           Inl e \<Rightarrow> (False, log_msg st (LogFailedToSend e), sock)
         | Inr prefix \<Rightarrow>
             (case send sock prefix of
                (Inl e, sock1) \<Rightarrow> (False, log_msg st (LogFailedToSend e), sock1)
              | (Inr sent, sock1) \<Rightarrow>
                  (case send sock1 message_data of
                     (Inl e, sock2) \<Rightarrow> (False, log_msg st (LogFailedToSend e), sock2)
                   | (Inr sent, sock2) \<Rightarrow> (True, st, sock2))))"

text \<open>The result \<open>JNull\<close> is the method's \<open>return None\<close>.  Like the source, \<open>send_message\<close>
  above does not look at the number that \<open>send\<close> returns.\<close>

definition receive_message :: "env \<Rightarrow> net_state \<Rightarrow> socket \<Rightarrow> json \<times> net_state \<times> socket" where
  "receive_message ev st sock =
     (case receive_exact sock 4 [] of
        (Inl e, sock1) \<Rightarrow> (JNull, log_msg st (LogFailedToReceive e), sock1)
      | (Inr None, sock1) \<Rightarrow> (JNull, st, sock1)
      | (Inr (Some length_data), sock1) \<Rightarrow>
          if length_data = [] then (JNull, st, sock1)
          else
            let message_length = from_bytes length_data in
            if message_length > 1024 * 1024 then (JNull, st, sock1)
            else
              (case receive_exact sock1 message_length [] of
                 (Inl e, sock2) \<Rightarrow> (JNull, log_msg st (LogFailedToReceive e), sock2)
               | (Inr None, sock2) \<Rightarrow> (JNull, st, sock2)
               | (Inr (Some message_data), sock2) \<Rightarrow>
                   if message_data = [] then (JNull, st, sock2)
                   else
                     (case json_loads ev message_data of
                        Inl e \<Rightarrow> (JNull, log_msg st (LogFailedToReceive e), sock2)
                      | Inr message \<Rightarrow> (message, st, sock2))))"

subsection \<open>What a stream delivers\<close>

text \<open>The number of bytes that arrive before the first error or the close, the first \<open>n\<close> of
  them, and the stream that \<open>_receive_exact\<close> leaves after reading \<open>n\<close> bytes.\<close>

fun rx_avail :: "rx_event list \<Rightarrow> nat" where
  "rx_avail [] = 0"
| "rx_avail (RxError # es) = 0"
| "rx_avail (Data bs # es) = length bs + rx_avail es"

fun rx_take :: "nat \<Rightarrow> rx_event list \<Rightarrow> bytes" where
  "rx_take n [] = []"
| "rx_take n (RxError # es) = []"
| "rx_take n (Data bs # es) =
     (if n \<le> length bs then take n bs else bs @ rx_take (n - length bs) es)"

fun rx_drop :: "nat \<Rightarrow> rx_event list \<Rightarrow> rx_event list" where
  "rx_drop n [] = []"
| "rx_drop n (RxError # es) = RxError # es"
| "rx_drop n (Data bs # es) =
     (if n = 0 then Data bs # es
      else if bs = [] then rx_drop n es
      else if length bs \<le> n then rx_drop (n - length bs) es
      else Data (drop n bs) # es)"

text \<open>The stream starts with the bytes \<open>bs\<close>, however they are cut into segments.\<close>

definition rx_starts_with :: "rx_event list \<Rightarrow> bytes \<Rightarrow> bool" where
  "rx_starts_with es bs \<longleftrightarrow> length bs \<le> rx_avail es \<and> rx_take (length bs) es = bs"

text \<open>The frame \<open>_send_message\<close> writes for a payload.\<close>

definition frame :: "bytes \<Rightarrow> bytes" where
  "frame payload = (case to_bytes4 (length payload) of Inr prefix \<Rightarrow> prefix @ payload | Inl e \<Rightarrow> [])"


section \<open>Reading from a stream\<close>

lemma rx_take_0 [simp]: "rx_take 0 es = []"
  by (induction es rule: rx_avail.induct) simp_all

lemma rx_drop_0 [simp]: "rx_drop 0 es = es"
  by (induction es rule: rx_avail.induct) simp_all

lemma length_rx_take: "n \<le> rx_avail es \<Longrightarrow> length (rx_take n es) = n"
  by (induction n es rule: rx_take.induct) auto

lemma rx_recv_avail:
  "0 < k \<Longrightarrow> k \<le> rx_avail es \<Longrightarrow>
   \<exists>chunk es'. rx_recv es k = (Inr chunk, es') \<and> chunk \<noteq> [] \<and> length chunk \<le> k \<and>
     rx_take k es = chunk @ rx_take (k - length chunk) es' \<and>
     rx_drop k es = rx_drop (k - length chunk) es' \<and>
     rx_avail es' + length chunk = rx_avail es"
proof (induction es k rule: rx_recv.induct)
  case (1 n)
  then show ?case by simp
next
  case (2 es n)
  then show ?case by simp
next
  case (3 bs es n)
  show ?case
  proof (cases "bs = []")
    case True
    with 3 show ?thesis by simp
  next
    case False
    with 3(2,3) show ?thesis by (cases "length bs \<le> n") auto
  qed
qed

lemma receive_exact_avail:
  "num_bytes - length data \<le> rx_avail (rx sock) \<Longrightarrow>
   receive_exact sock num_bytes data =
     (Inr (Some (data @ rx_take (num_bytes - length data) (rx sock))),
      sock\<lparr>rx := rx_drop (num_bytes - length data) (rx sock)\<rparr>)"
proof (induction sock num_bytes data rule: receive_exact.induct)
  case (1 sock num_bytes data)
  show ?case
  proof (cases "length data < num_bytes")
    case False
    then show ?thesis by simp
  next
    case True
    let ?k = "num_bytes - length data"
    from True have k: "0 < ?k" by simp
    from rx_recv_avail [OF k "1.prems"] obtain chunk es' where
      r: "rx_recv (rx sock) ?k = (Inr chunk, es')" and ne: "chunk \<noteq> []" and
      le: "length chunk \<le> ?k" and
      tk: "rx_take ?k (rx sock) = chunk @ rx_take (?k - length chunk) es'" and
      dr: "rx_drop ?k (rx sock) = rx_drop (?k - length chunk) es'" and
      av: "rx_avail es' + length chunk = rx_avail (rx sock)"
      by blast
    have rc: "recv sock ?k = (Inr chunk, sock\<lparr>rx := es'\<rparr>)"
      by (simp add: recv_def r)
    have k': "num_bytes - length (data @ chunk) = ?k - length chunk" by simp
    have "num_bytes - length (data @ chunk) \<le> rx_avail (rx (sock\<lparr>rx := es'\<rparr>))"
      using av "1.prems" by simp
    from "1.IH" [OF True rc [symmetric] refl ne this]
    have "receive_exact (sock\<lparr>rx := es'\<rparr>) num_bytes (data @ chunk) =
            (Inr (Some (data @ chunk @ rx_take (?k - length chunk) es')),
             sock\<lparr>rx := rx_drop (?k - length chunk) es'\<rparr>)"
      by (simp add: k')
    then show ?thesis
      using True ne by (subst receive_exact.simps) (simp add: rc tk dr)
  qed
qed

declare receive_exact.simps [simp del]


section \<open>The catalog: \<open>FileManager\<close>\<close>

text \<open>\<open>_save_shared_files\<close> rewrites the database file with the catalog and returns \<open>True\<close>, or
  returns \<open>False\<close> when \<open>open\<close> raises \<open>IOError\<close>, which it swallows.\<close>

definition save_shared_files :: "env \<Rightarrow> net_state \<Rightarrow> bool \<times> net_state" where
  "save_shared_files ev st =
     (if shared_files_db st \<in> set (read_only st) then (False, st)
      else (True, st\<lparr>fs := (fs st)(shared_files_db st \<mapsto> json_dump_db ev (shared_files st))\<rparr>))"

text \<open>\<open>get_shared_files\<close> first deletes every entry whose path does not exist on disk
  (\<open># Clean up non-existent files\<close>), saves the database when it deleted one, and returns
  the remaining names.\<close>

definition get_shared_files :: "env \<Rightarrow> net_state \<Rightarrow> string list \<times> net_state" where
  "get_shared_files ev st =
     (let files_to_remove =
            map fst (filter (\<lambda>item. fs st (fi_path (snd item)) = None) (shared_files st));
          st1 = st\<lparr>shared_files := fold AList.delete files_to_remove (shared_files st)\<rparr>;
          st2 = (if files_to_remove \<noteq> [] then snd (save_shared_files ev st1) else st1)
      in (map fst (shared_files st2), st2))"

text \<open>\<open>get_file_path\<close>: \<open>filename in self.shared_files\<close> raises \<open>TypeError\<close> on an unhashable
  key (a list, a dict); the result \<open>None\<close> is the method's \<open>return None\<close>.\<close>

fun get_file_path :: "net_state \<Rightarrow> json \<Rightarrow> error + string option" where
  "get_file_path st (JStr filename) =
     Inr (case map_of (shared_files st) filename of
            None \<Rightarrow> None
          | Some file_info \<Rightarrow> Some (fi_path file_info))"
| "get_file_path st (JList xs) = Inl TypeError"
| "get_file_path st (JDict kvs) = Inl TypeError"
| "get_file_path st _ = Inr None"

text \<open>\<open>os.path.exists(p)\<close>: \<open>os.stat(None)\<close> raises \<open>TypeError\<close>, which \<open>exists\<close> does not
  catch (it catches \<open>OSError\<close> and \<open>ValueError\<close>).\<close>

definition os_path_exists :: "(string \<rightharpoonup> bytes) \<Rightarrow> string option \<Rightarrow> error + bool" where
  "os_path_exists files p =
     (case p of None \<Rightarrow> Inl TypeError | Some file_path \<Rightarrow> Inr (files file_path \<noteq> None))"

section \<open>The server: dispatch\<close>

text \<open>The loop body of \<open>_handle_file_list_request\<close>, over the names \<open>get_shared_files\<close>
  returned: the descriptor of each file that exists, its size and hash read from disk.\<close>

fun file_list_entries :: "env \<Rightarrow> net_state \<Rightarrow> string list \<Rightarrow> error + json list" where
  "file_list_entries ev st [] = Inr []"
| "file_list_entries ev st (filename # names) =
     (case get_file_path st (JStr filename) of
        Inl e \<Rightarrow> Inl e
      | Inr file_path \<Rightarrow>
          (case os_path_exists (fs st) file_path of
             Inl e \<Rightarrow> Inl e
           | Inr ex \<Rightarrow>
               (case file_list_entries ev st names of
                  Inl e \<Rightarrow> Inl e
                | Inr files \<Rightarrow>
                    (case Option.bind file_path (fs st) of
                       None \<Rightarrow> Inr files
                     | Some content \<Rightarrow>
                         Inr (JDict [(''name'', JStr filename),
                                     (''size'', JInt (int (length content))),
                                     (''hash'', JStr (sha256_hexdigest ev content))] # files)))))"

definition handle_file_list_request ::
    "env \<Rightarrow> net_state \<Rightarrow> socket \<Rightarrow> error option \<times> net_state \<times> socket" where
  "handle_file_list_request ev st sock =
     (case get_shared_files ev st of
        (names, st1) \<Rightarrow>
          (case file_list_entries ev st1 names of
             Inl e \<Rightarrow> (Some e, st1, sock)
           | Inr files \<Rightarrow>
               (case send_message st1 sock
                       (JDict [(''type'', JStr ''file_list_response''), (''files'', JList files)]) of
                  (ok, st2, sock1) \<Rightarrow> (None, st2, sock1))))"

text \<open>\<open>file.read(4096)\<close> until it returns \<open>b''\<close>, and the \<open>send\<close> of each chunk.\<close>

function chunks :: "nat \<Rightarrow> bytes \<Rightarrow> bytes list" where
  "chunks n bs = (if bs = [] \<or> n = 0 then [] else take n bs # chunks n (drop n bs))"
  by pat_completeness auto
termination
  by (relation "measure (\<lambda>(n, bs). length bs)") (auto simp: neq_Nil_conv)

declare chunks.simps [simp del]

fun send_chunks :: "socket \<Rightarrow> bytes list \<Rightarrow> error option \<times> socket" where
  "send_chunks sock [] = (None, sock)"
| "send_chunks sock (c # cs) =
     (case send sock c of
        (Inl e, sock1) \<Rightarrow> (Some e, sock1)
      | (Inr sent, sock1) \<Rightarrow> send_chunks sock1 cs)"

definition handle_file_request ::
    "env \<Rightarrow> net_state \<Rightarrow> socket \<Rightarrow> json \<Rightarrow> error option \<times> net_state \<times> socket" where
  "handle_file_request ev st sock message =
     (case py_get message ''filename'' JNull of
        Inl e \<Rightarrow> (Some e, st, sock)
      | Inr filename \<Rightarrow>
          if \<not> truthy filename then (None, st, sock)
          else
            (case get_file_path st filename of
               Inl e \<Rightarrow> (Some e, st, sock)
             | Inr file_path \<Rightarrow>
                 (case os_path_exists (fs st) file_path of
                    Inl e \<Rightarrow> (Some e, st, sock)
                  | Inr ex \<Rightarrow>
                      (case Option.bind file_path (fs st) of
                         None \<Rightarrow>
                           (case send_message st sock
                                   (JDict [(''type'', JStr ''file_response''),
                                           (''success'', JBool False),
                                           (''error'', JStr ''File not found'')]) of
                              (ok, st1, sock1) \<Rightarrow> (None, st1, sock1))
                       | Some content \<Rightarrow>
                           (case send_message st sock
                                   (JDict [(''type'', JStr ''file_response''),
                                           (''success'', JBool True),
                                           (''filename'', filename),
                                           (''size'', JInt (int (length content)))]) of
                              (ok, st1, sock1) \<Rightarrow>
                                (case send_chunks sock1 (chunks 4096 content) of
                                   (None, sock2) \<Rightarrow> (None, st1, sock2)
                                 | (Some e, sock2) \<Rightarrow>
                                     (None, log_msg st1 (LogErrorSendingFile filename e), sock2)))))))"

definition process_message ::
    "env \<Rightarrow> net_state \<Rightarrow> socket \<Rightarrow> json \<Rightarrow> error option \<times> net_state \<times> socket" where
  "process_message ev st sock message =
     (case py_get message ''type'' JNull of
        Inl e \<Rightarrow> (Some e, st, sock)
      | Inr msg_type \<Rightarrow>
          if msg_type = JStr ''file_list_request'' then handle_file_list_request ev st sock
          else if msg_type = JStr ''file_request'' then handle_file_request ev st sock message
          else if msg_type = JStr ''ping'' then
            (case send_message st sock (JDict [(''type'', JStr ''pong'')]) of
               (ok, st1, sock1) \<Rightarrow> (None, st1, sock1))
          else (None, log_msg st (LogUnknownMessageType msg_type), sock))"

section \<open>The server: the connection handler\<close>

text \<open>One turn of the \<open>while\<close> loop of \<open>_handle_client\<close>: it goes on (\<open>Continue\<close>), leaves the
  loop (\<open>Break\<close>) or raises into the handlers around the loop (\<open>Raise\<close>).\<close>

datatype step = Continue net_state socket | Break net_state socket | Raise error net_state socket

definition handle_client_step :: "env \<Rightarrow> net_state \<Rightarrow> socket \<Rightarrow> step" where
  "handle_client_step ev st sock =
     (case receive_exact sock 4 [] of
        (Inl e, sock1) \<Rightarrow> Raise e st sock1
      | (Inr None, sock1) \<Rightarrow> Break st sock1
      | (Inr (Some length_data), sock1) \<Rightarrow>
          if length_data = [] then Break st sock1
          else
            let message_length = from_bytes length_data in
            if message_length > 1024 * 1024 then Break st sock1
            else
              (case receive_exact sock1 message_length [] of
                 (Inl e, sock2) \<Rightarrow> Raise e st sock2
               | (Inr None, sock2) \<Rightarrow> Break st sock2
               | (Inr (Some message_data), sock2) \<Rightarrow>
                   if message_data = [] then Break st sock2
                   else
                     (case (case json_loads ev message_data of
                              Inl e \<Rightarrow> (Some e, st, sock2)
                            | Inr message \<Rightarrow> process_message ev st sock2 message) of
                        (None, st1, sock3) \<Rightarrow> Continue st1 sock3
                      | (Some e, st1, sock3) \<Rightarrow>
                          if e = JSONDecodeError then Continue (log_msg st1 LogInvalidJSON) sock3
                          else Raise e st1 sock3)))"


text \<open>A measure of what a stream still holds; every successful read of a byte lowers it.\<close>

fun rx_size :: "rx_event list \<Rightarrow> nat" where
  "rx_size [] = 0"
| "rx_size (RxError # es) = Suc (rx_size es)"
| "rx_size (Data bs # es) = Suc (length bs + rx_size es)"

lemma rx_recv_size:
  "rx_recv es n = (r, es') \<Longrightarrow>
   rx_size es' \<le> rx_size es \<and> (\<forall>chunk. r = Inr chunk \<and> chunk \<noteq> [] \<longrightarrow> rx_size es' < rx_size es)"
proof (induction es n arbitrary: r es' rule: rx_recv.induct)
  case (1 n)
  then show ?case by auto
next
  case (2 es n)
  then show ?case by auto
next
  case (3 bs es n)
  show ?case
  proof (cases "bs = []")
    case True
    with 3 show ?thesis by fastforce
  next
    case False
    with 3(2) show ?thesis by (cases "length bs \<le> n"; cases n) auto
  qed
qed

lemma receive_exact_size:
  "receive_exact sock n data = (r, sock') \<Longrightarrow>
   rx_size (rx sock') \<le> rx_size (rx sock) \<and>
   (\<forall>res. r = Inr (Some res) \<and> length data < n \<longrightarrow> rx_size (rx sock') < rx_size (rx sock))"
proof (induction sock n data arbitrary: r sock' rule: receive_exact.induct)
  case (1 sock num_bytes data)
  show ?case
  proof (cases "length data < num_bytes")
    case False
    with "1.prems" show ?thesis by (simp add: receive_exact.simps)
  next
    case True
    obtain q es where rr: "rx_recv (rx sock) (num_bytes - length data) = (q, es)"
      by (cases "rx_recv (rx sock) (num_bytes - length data)")
    then have rc: "recv sock (num_bytes - length data) = (q, sock\<lparr>rx := es\<rparr>)"
      by (simp add: recv_def)
    note sz = rx_recv_size [OF rr]
    show ?thesis
    proof (cases q)
      case (Inl e)
      with "1.prems" True rc sz show ?thesis
        by (subst (asm) receive_exact.simps) auto
    next
      case (Inr chunk)
      show ?thesis
      proof (cases "chunk = []")
        case True
        with "1.prems" \<open>length data < num_bytes\<close> rc sz Inr show ?thesis
          by (subst (asm) receive_exact.simps) auto
      next
        case False
        with "1.prems" True rc Inr
        have eq: "receive_exact (sock\<lparr>rx := es\<rparr>) num_bytes (data @ chunk) = (r, sock')"
          by (subst (asm) receive_exact.simps) simp
        from "1.IH" [OF True rc [symmetric, unfolded Inr] refl False eq]
        have "rx_size (rx sock') \<le> rx_size es" by simp
        moreover from sz Inr False have "rx_size es < rx_size (rx sock)" by simp
        ultimately show ?thesis by simp
      qed
    qed
  qed
qed

lemma rx_send [simp]: "rx (snd (send sock bs)) = rx sock"
  by (simp add: send_def split: list.splits tx_event.splits)

lemma rx_send_message [simp]: "rx (snd (snd (send_message st sock m))) = rx sock"
proof -
  have "\<And>a b. send sock a = b \<Longrightarrow> rx (snd b) = rx sock" by auto
  then show ?thesis
    by (auto simp: send_message_def Let_def split: sum.splits prod.splits)
       (metis rx_send snd_conv)+
qed

lemma rx_send_chunks [simp]: "rx (snd (send_chunks sock cs)) = rx sock"
proof (induction cs arbitrary: sock)
  case Nil
  then show ?case by simp
next
  case (Cons c cs)
  have "rx (snd (send sock c)) = rx sock" by simp
  with Cons show ?case
    by (cases "send sock c") (auto split: sum.splits)
qed


lemma rx_handle_file_list_request:
  assumes "handle_file_list_request ev st sock = (e, st', sock')"
  shows "rx sock' = rx sock"
proof -
  have sm: "\<And>st m a b c. send_message st sock m = (a, b, c) \<Longrightarrow> rx c = rx sock"
    by (metis rx_send_message snd_conv)
  from assms show ?thesis
    by (auto simp: handle_file_list_request_def split: sum.splits prod.splits dest!: sm)
qed

lemma rx_handle_file_request:
  assumes "handle_file_request ev st sock m = (e, st', sock')"
  shows "rx sock' = rx sock"
proof -
  have sm: "\<And>st m a b c. send_message st sock m = (a, b, c) \<Longrightarrow> rx c = rx sock"
    by (metis rx_send_message snd_conv)
  have sc: "\<And>s cs a b. send_chunks s cs = (a, b) \<Longrightarrow> rx b = rx s"
    by (metis rx_send_chunks snd_conv)
  from assms show ?thesis
    by (auto simp: handle_file_request_def split: sum.splits if_splits option.splits prod.splits
             dest!: sm sc)
qed

lemma rx_process_message:
  assumes "process_message ev st sock m = (e, st', sock')"
  shows "rx sock' = rx sock"
proof -
  have sm: "\<And>st m a b c. send_message st sock m = (a, b, c) \<Longrightarrow> rx c = rx sock"
    by (metis rx_send_message snd_conv)
  from assms show ?thesis
    by (auto simp: process_message_def split: sum.splits if_splits prod.splits
             dest: sm rx_handle_file_list_request rx_handle_file_request)
qed

lemma handle_client_step_Continue:
  assumes "handle_client_step ev st sock = Continue st' sock'"
  shows "rx_size (rx sock') < rx_size (rx sock)"
proof -
  obtain r1 sock1 where r1: "receive_exact sock 4 [] = (r1, sock1)"
    by (cases "receive_exact sock 4 []")
  from assms r1 obtain length_data where ld: "r1 = Inr (Some length_data)"
    by (auto simp: handle_client_step_def split: sum.splits option.splits)
  from receive_exact_size [OF r1] ld have lt1: "rx_size (rx sock1) < rx_size (rx sock)"
    by simp
  obtain r2 sock2 where
    r2: "receive_exact sock1 (from_bytes length_data) [] = (r2, sock2)"
    by (cases "receive_exact sock1 (from_bytes length_data) []")
  from receive_exact_size [OF r2] have le2: "rx_size (rx sock2) \<le> rx_size (rx sock1)"
    by simp
  have "rx sock' = rx sock2"
    using assms r1 ld r2
    by (auto simp: handle_client_step_def Let_def
             split: sum.splits option.splits if_splits prod.splits
             dest: rx_process_message)
  with lt1 le2 show ?thesis by simp
qed

text \<open>The \<open>while self.is_running\<close> loop: the exception that ended it, if any, and the state and
  the socket it leaves.\<close>

function handle_client_loop ::
    "env \<Rightarrow> net_state \<Rightarrow> socket \<Rightarrow> error option \<times> net_state \<times> socket" where
  "handle_client_loop ev st sock =
     (if is_running st then
        (case handle_client_step ev st sock of
           Continue st1 sock1 \<Rightarrow> handle_client_loop ev st1 sock1
         | Break st1 sock1 \<Rightarrow> (None, st1, sock1)
         | Raise e st1 sock1 \<Rightarrow> (Some e, st1, sock1))
      else (None, st, sock))"
  by pat_completeness auto
termination
  by (relation "measure (\<lambda>(ev, st, sock). rx_size (rx sock))")
     (auto dest: handle_client_step_Continue)

declare handle_client_loop.simps [simp del]

text \<open>\<open>_handle_client\<close>: the loop, the two \<open>except\<close> clauses, and the \<open>finally\<close> clause that
  closes the socket, takes it out of \<open>connections\<close> and reports the disconnection.
  \<open>sock_id\<close> names the socket in \<open>connections\<close>; \<open>client_info\<close> is the address and the
  port as \<open>str\<close> prints it.\<close>

definition handle_client ::
    "env \<Rightarrow> net_state \<Rightarrow> socket \<Rightarrow> nat \<Rightarrow> string \<times> string \<Rightarrow> net_state \<times> socket" where
  "handle_client ev st sock sock_id client_info =
     (case handle_client_loop ev st sock of
        (exc, st1, sock1) \<Rightarrow>
          let st2 = (case exc of
                       None \<Rightarrow> st1
                     | Some e \<Rightarrow>
                         if e = BluetoothError
                         then log_msg st1 (LogBluetoothClientHandlerError e)
                         else log_msg st1 (LogClientHandlerError e));
              sock2 = close sock1;
              st3 = st2\<lparr>connections := remove1 sock_id (connections st2)\<rparr>;
              st4 = (if on_peer_disconnected st3
                     then st3\<lparr>events := events st3 @ [PeerDisconnected (fst client_info) (snd client_info)]\<rparr>
                     else st3)
          in (st4, sock2))"

section \<open>Frames on a stream\<close>

lemma rx_take_Data: "rx_take n (Data bs # es) = take n bs @ rx_take (n - length bs) es"
  by simp

lemma rx_drop_Data_le:
  "length bs \<le> n \<Longrightarrow> 0 < n \<Longrightarrow> rx_drop n (Data bs # es) = rx_drop (n - length bs) es"
  by auto

lemma rx_drop_Data_gt:
  "n < length bs \<Longrightarrow> 0 < n \<Longrightarrow> rx_drop n (Data bs # es) = Data (drop n bs) # es"
  by auto

lemma rx_avail_drop: "a \<le> rx_avail es \<Longrightarrow> rx_avail (rx_drop a es) = rx_avail es - a"
proof (induction es arbitrary: a)
  case Nil
  then show ?case by simp
next
  case (Cons e es)
  show ?case
  proof (cases e)
    case RxError
    with Cons.prems show ?thesis by simp
  next
    case (Data bs)
    show ?thesis
    proof (cases "a = 0")
      case True
      then show ?thesis by simp
    next
      case False
      then have a: "0 < a" by simp
      show ?thesis
      proof (cases "length bs \<le> a")
        case True
        with Cons.prems Data have "a - length bs \<le> rx_avail es" by simp
        from Cons.IH [OF this] True show ?thesis
          unfolding Data rx_drop_Data_le [OF True a] rx_avail.simps by arith
      next
        case False
        then have lt: "a < length bs" by simp
        show ?thesis
          unfolding Data rx_drop_Data_gt [OF lt a] using lt by simp
      qed
    qed
  qed
qed

lemma rx_take_add:
  "rx_take (a + b) es = rx_take a es @ rx_take b (rx_drop a es)"
proof (induction es arbitrary: a)
  case Nil
  then show ?case by simp
next
  case (Cons e es)
  show ?case
  proof (cases e)
    case RxError
    then show ?thesis by simp
  next
    case (Data bs)
    show ?thesis
    proof (cases "a = 0")
      case True
      then show ?thesis by simp
    next
      case False
      then have a: "0 < a" by simp
      show ?thesis
      proof (cases "length bs \<le> a")
        case True
        then have i: "a + b - length bs = (a - length bs) + b" by arith
        from True have t: "take (a + b) bs = bs" "take a bs = bs" by simp_all
        show ?thesis
          unfolding Data rx_drop_Data_le [OF True a] rx_take_Data t i
          by (simp only: Cons.IH append_assoc)
      next
        case False
        then have lt: "a < length bs" by simp
        from False have z: "a - length bs = 0" by simp
        have l: "length (drop a bs) = length bs - a" by simp
        from False have i: "b - (length bs - a) = a + b - length bs" by arith
        show ?thesis
          unfolding Data rx_drop_Data_gt [OF lt a] rx_take_Data z rx_take_0 l i take_add
          by (simp only: append_assoc append_Nil2)
      qed
    qed
  qed
qed

lemma rx_drop_drop: "rx_drop b (rx_drop a es) = rx_drop (a + b) es"
proof (induction es arbitrary: a)
  case Nil
  then show ?case by simp
next
  case (Cons e es)
  show ?case
  proof (cases e)
    case RxError
    then show ?thesis by simp
  next
    case (Data bs)
    show ?thesis
    proof (cases "a = 0 \<or> b = 0")
      case True
      then show ?thesis by auto
    next
      case False
      then have a: "0 < a" and b: "0 < b" and ab: "0 < a + b" by simp_all
      show ?thesis
      proof (cases "length bs \<le> a")
        case True
        then have i: "a + b - length bs = (a - length bs) + b" by arith
        from True have le: "length bs \<le> a + b" by simp
        show ?thesis
          unfolding Data rx_drop_Data_le [OF True a] rx_drop_Data_le [OF le ab] i
          by (rule Cons.IH)
      next
        case False
        then have lt: "a < length bs" by simp
        show ?thesis
        proof (cases "length bs \<le> a + b")
          case True
          with False have le: "length (drop a bs) \<le> b" by simp
          from False have i: "b - length (drop a bs) = a + b - length bs" by simp
          show ?thesis
            unfolding Data rx_drop_Data_gt [OF lt a] rx_drop_Data_le [OF le b]
              rx_drop_Data_le [OF True ab] i ..
        next
          case nle: False
          then have gt: "a + b < length bs" by simp
          then have gt': "b < length (drop a bs)" by simp
          show ?thesis
            unfolding Data rx_drop_Data_gt [OF lt a] rx_drop_Data_gt [OF gt ab]
              rx_drop_Data_gt [OF gt' b]
            by (simp add: add.commute)
        qed
      qed
    qed
  qed
qed

lemma from_bytes_to_bytes4:
  assumes "to_bytes4 n = Inr prefix"
  shows "from_bytes prefix = n" and "length prefix = 4"
proof -
  from assms have n: "n < 2 ^ 32"
    by (auto simp: to_bytes4_def split: if_splits)
  from assms n have p:
    "prefix = [char_of (n div 2 ^ 24), char_of (n div 2 ^ 16), char_of (n div 2 ^ 8), char_of n]"
    by (simp add: to_bytes4_def)
  show "length prefix = 4" by (simp add: p)
  define n1 where "n1 = n div 256"
  define n2 where "n2 = n1 div 256"
  define n3 where "n3 = n2 div 256"
  have d2: "n div 2 ^ 16 = n2" and d3: "n div 2 ^ 24 = n3" and d1: "n div 2 ^ 8 = n1"
    by (simp_all add: n1_def n2_def n3_def div_mult2_eq)
  have n3: "n3 < 256" using n by (simp add: d3 [symmetric] less_mult_imp_div_less)
  have e0: "n = n1 * 256 + n mod 256" by (simp add: n1_def)
  have e1: "n1 = n2 * 256 + n1 mod 256" by (simp add: n2_def)
  have e2: "n2 = n3 * 256 + n2 mod 256" by (simp add: n3_def)
  have "((n3 * 256 + n2 mod 256) * 256 + n1 mod 256) * 256 + n mod 256 = n"
    using e0 e1 e2 by simp
  with n3 have *: "((n3 mod 256 * 256 + n2 mod 256) * 256 + n1 mod 256) * 256 + n mod 256 = n"
    by simp
  have "from_bytes prefix = ((n3 mod 256 * 256 + n2 mod 256) * 256 + n1 mod 256) * 256 + n mod 256"
    unfolding p from_bytes_def d1 d2 d3 by (simp del: mult_numeral_left_semiring_numeral)
  then show "from_bytes prefix = n" by (simp only: *)
qed

lemma to_bytes4_small:
  "n \<le> 1048576 \<Longrightarrow> \<exists>prefix. to_bytes4 n = Inr prefix \<and> length prefix = 4 \<and> from_bytes prefix = n"
proof -
  assume "n \<le> 1048576"
  then have "n < 2 ^ 32" by simp
  then obtain prefix where p: "to_bytes4 n = Inr prefix"
    by (simp add: to_bytes4_def)
  from from_bytes_to_bytes4 [OF p] p show ?thesis by blast
qed

lemma rx_starts_with_append:
  assumes "rx_starts_with es (xs @ ys)"
  shows "length xs \<le> rx_avail es" and "rx_take (length xs) es = xs"
    and "rx_starts_with (rx_drop (length xs) es) ys"
proof -
  from assms have av: "length xs + length ys \<le> rx_avail es"
    and tk: "rx_take (length xs + length ys) es = xs @ ys"
    by (simp_all add: rx_starts_with_def)
  from av show le: "length xs \<le> rx_avail es" by simp
  have len: "length (rx_take (length xs) es) = length xs"
    by (rule length_rx_take [OF le])
  from tk have "rx_take (length xs) es @ rx_take (length ys) (rx_drop (length xs) es) = xs @ ys"
    by (simp only: rx_take_add)
  with len have a: "rx_take (length xs) es = xs"
    and b: "rx_take (length ys) (rx_drop (length xs) es) = ys"
    by simp_all
  show "rx_take (length xs) es = xs" by (rule a)
  from av have "length ys \<le> rx_avail (rx_drop (length xs) es)"
    by (simp add: rx_avail_drop [OF le])
  with b show "rx_starts_with (rx_drop (length xs) es) ys"
    by (simp add: rx_starts_with_def)
qed

lemma rx_starts_with_Nil: "rx_starts_with es [] \<Longrightarrow> True"
  by simp

text \<open>Reading one frame: the two \<open>_receive_exact\<close> calls return the prefix and the payload
  and leave the stream behind the frame.\<close>

lemma receive_frame:
  assumes sw: "rx_starts_with (rx sock) (frame payload)" and len: "length payload \<le> 1048576"
  shows "\<exists>prefix. receive_exact sock 4 [] = (Inr (Some prefix), sock\<lparr>rx := rx_drop 4 (rx sock)\<rparr>) \<and>
           prefix \<noteq> [] \<and> from_bytes prefix = length payload \<and>
           receive_exact (sock\<lparr>rx := rx_drop 4 (rx sock)\<rparr>) (length payload) [] =
             (Inr (Some payload), sock\<lparr>rx := rx_drop (length (frame payload)) (rx sock)\<rparr>) \<and>
           length (frame payload) = 4 + length payload"
proof -
  from to_bytes4_small [OF len] obtain prefix where
    p: "to_bytes4 (length payload) = Inr prefix" and l4: "length prefix = 4" and
    fb: "from_bytes prefix = length payload"
    by blast
  have fr: "frame payload = prefix @ payload" by (simp add: frame_def p)
  from sw have sw': "rx_starts_with (rx sock) (prefix @ payload)" by (simp add: fr)
  note a = rx_starts_with_append [OF sw', unfolded l4]
  have r1: "receive_exact sock 4 [] = (Inr (Some prefix), sock\<lparr>rx := rx_drop 4 (rx sock)\<rparr>)"
    using receive_exact_avail [of 4 "[]" sock] a(1,2) by simp
  from a(3) have av2: "length payload \<le> rx_avail (rx_drop 4 (rx sock))"
    and tk2: "rx_take (length payload) (rx_drop 4 (rx sock)) = payload"
    by (simp_all add: rx_starts_with_def)
  have r2: "receive_exact (sock\<lparr>rx := rx_drop 4 (rx sock)\<rparr>) (length payload) [] =
             (Inr (Some payload), sock\<lparr>rx := rx_drop (4 + length payload) (rx sock)\<rparr>)"
    using receive_exact_avail [of "length payload" "[]" "sock\<lparr>rx := rx_drop 4 (rx sock)\<rparr>"] av2 tk2
    by (simp add: rx_drop_drop)
  from l4 have "prefix \<noteq> []" by auto
  with r1 r2 fb fr l4 show ?thesis by simp
qed

lemma handle_client_step_frame:
  assumes sw: "rx_starts_with (rx sock) (frame payload)" and ne: "payload \<noteq> []"
    and len: "length payload \<le> 1048576"
  shows "handle_client_step ev st sock =
     (case (case json_loads ev payload of
              Inl e \<Rightarrow> (Some e, st, sock\<lparr>rx := rx_drop (length (frame payload)) (rx sock)\<rparr>)
            | Inr message \<Rightarrow>
                process_message ev st
                  (sock\<lparr>rx := rx_drop (length (frame payload)) (rx sock)\<rparr>) message) of
        (None, st1, sock3) \<Rightarrow> Continue st1 sock3
      | (Some e, st1, sock3) \<Rightarrow>
          if e = JSONDecodeError then Continue (log_msg st1 LogInvalidJSON) sock3
          else Raise e st1 sock3)"
proof -
  from receive_frame [OF sw len] obtain prefix where
    r1: "receive_exact sock 4 [] = (Inr (Some prefix), sock\<lparr>rx := rx_drop 4 (rx sock)\<rparr>)" and
    pne: "prefix \<noteq> []" and fb: "from_bytes prefix = length payload" and
    r2: "receive_exact (sock\<lparr>rx := rx_drop 4 (rx sock)\<rparr>) (length payload) [] =
           (Inr (Some payload), sock\<lparr>rx := rx_drop (length (frame payload)) (rx sock)\<rparr>)"
    by blast
  show ?thesis
    unfolding handle_client_step_def r1 using pne ne len
    by (simp add: fb r2 Let_def)
qed

section \<open>Concrete inputs\<close>

text \<open>A server with an empty catalog and an empty disk, an idle socket, and a library whose
  parser knows the one payload it is given.\<close>

definition server0 :: net_state where
  "server0 = \<lparr>is_running = True, connections = [0], shared_files = [],
     shared_files_db = ''/home/u/.p2p_file_share/shared_files.json'',
     fs = Map.empty, read_only = [], log = [], events = [], on_peer_disconnected = True,
     on_file_received = True\<rparr>"

definition socket0 :: "rx_event list \<Rightarrow> socket" where
  "socket0 es = \<lparr>rx = es, tx = [], tx_plan = [], closed = False\<rparr>"

definition env0 :: "json \<Rightarrow> env" where
  "env0 message =
     \<lparr>json_loads = (\<lambda>data. if data = json_dumps message then Inr message else Inl JSONDecodeError),
      sha256_hexdigest = (\<lambda>data. []),
      json_dump_db = (\<lambda>catalog. concat (map fst catalog))\<rparr>"

lemma rx_starts_with_single: "rx_starts_with [Data bs] bs"
  by (simp add: rx_starts_with_def)

lemma rx_starts_with_cons: "rx_starts_with (Data bs # es) bs"
  by (simp add: rx_starts_with_def)

lemma length_frame: "length payload \<le> 1048576 \<Longrightarrow> length (frame payload) = 4 + length payload"
  using to_bytes4_small [of "length payload"] by (auto simp: frame_def)

lemma rx_drop_whole: "bs \<noteq> [] \<Longrightarrow> rx_drop (length bs) (Data bs # es) = es"
  by simp

lemma rx_drop_frame:
  "length payload \<le> 1048576 \<Longrightarrow> rx_drop (length (frame payload)) (Data (frame payload) # es) = es"
  using length_frame [of payload] by (intro rx_drop_whole) auto

section \<open>Requests without a file name\<close>

text \<open>
  C10.  A frame arrives whose payload parses to a message of type \<open>file_request\<close> whose
  \<open>filename\<close> is absent (\<open>get\<close> gives \<open>None\<close>) or empty, or any other value Python counts as
  false.  Then the turn of the handler loop ends in \<open>Continue\<close> with the server state as it
  was and with a socket that differs from the one before only in that the frame has been
  read: nothing was sent, nothing was logged, the socket is not closed.  The handler as a
  whole behaves as if the frame had not been there.
\<close>

theorem file_request_without_filename_dropped:
  assumes "rx_starts_with (rx sock) (frame payload)"
    and "payload \<noteq> []" and "length payload \<le> 1048576"
    and "json_loads ev payload = Inr message"
    and "py_get message ''type'' JNull = Inr (JStr ''file_request'')"
    and "py_get message ''filename'' JNull = Inr filename" and "\<not> truthy filename"
    and "is_running st"
  shows "handle_client_step ev st sock =
           Continue st (sock\<lparr>rx := rx_drop (length (frame payload)) (rx sock)\<rparr>) \<and>
         handle_client ev st sock sock_id client_info =
           handle_client ev st (sock\<lparr>rx := rx_drop (length (frame payload)) (rx sock)\<rparr>)
             sock_id client_info"
proof -
  let ?sock' = "sock\<lparr>rx := rx_drop (length (frame payload)) (rx sock)\<rparr>"
  have pm: "process_message ev st ?sock' message = (None, st, ?sock')"
    using assms(5,6,7) by (simp add: process_message_def handle_file_request_def)
  have step: "handle_client_step ev st sock = Continue st ?sock'"
    by (simp add: handle_client_step_frame [OF assms(1,2,3)] assms(4) pm)
  have "handle_client_loop ev st sock = handle_client_loop ev st ?sock'"
    using assms(8) step by (subst handle_client_loop.simps) simp
  then show ?thesis
    using step by (simp add: handle_client_def)
qed

theorem file_request_without_filename_dropped_witness:
  "rx_starts_with (rx (socket0 [Data (frame (json_dumps (JDict [(''type'', JStr ''file_request'')])))]))
     (frame (json_dumps (JDict [(''type'', JStr ''file_request'')]))) \<and>
   json_dumps (JDict [(''type'', JStr ''file_request'')]) \<noteq> [] \<and>
   length (json_dumps (JDict [(''type'', JStr ''file_request'')])) \<le> 1048576 \<and>
   json_loads (env0 (JDict [(''type'', JStr ''file_request'')]))
     (json_dumps (JDict [(''type'', JStr ''file_request'')])) =
     Inr (JDict [(''type'', JStr ''file_request'')]) \<and>
   py_get (JDict [(''type'', JStr ''file_request'')]) ''type'' JNull = Inr (JStr ''file_request'') \<and>
   py_get (JDict [(''type'', JStr ''file_request'')]) ''filename'' JNull = Inr JNull \<and>
   \<not> truthy JNull \<and> is_running server0 \<and>
   handle_client_step (env0 (JDict [(''type'', JStr ''file_request'')])) server0
       (socket0 [Data (frame (json_dumps (JDict [(''type'', JStr ''file_request'')])))]) =
     Continue server0 (socket0 [])"
proof -
  let ?m = "JDict [(''type'', JStr ''file_request'')]"
  let ?p = "json_dumps ?m"
  have h1: "rx_starts_with (rx (socket0 [Data (frame ?p)])) (frame ?p)"
    by (simp add: socket0_def rx_starts_with_single)
  have h2: "?p \<noteq> []" by simp
  have h3: "length ?p \<le> 1048576" by (simp add: dumps_str_def escape_char_def)
  have h4: "json_loads (env0 ?m) ?p = Inr ?m" by (simp add: env0_def)
  have h5: "py_get ?m ''type'' JNull = Inr (JStr ''file_request'')" by simp
  have h6: "py_get ?m ''filename'' JNull = Inr JNull" by simp
  have h7: "\<not> truthy JNull" by simp
  have h8: "is_running server0" by (simp add: server0_def)
  have dr: "rx_drop (length (frame ?p)) [Data (frame ?p)] = []"
    by (rule rx_drop_frame [OF h3])
  have r: "rx (socket0 [Data (frame ?p)]) = [Data (frame ?p)]"
    by (simp add: socket0_def)
  have e: "(socket0 [Data (frame ?p)])\<lparr>rx := rx_drop (length (frame ?p))
             (rx (socket0 [Data (frame ?p)]))\<rparr> = socket0 []"
    unfolding r dr by (simp add: socket0_def)
  from file_request_without_filename_dropped [OF h1 h2 h3 h4 h5 h6 h7 h8, of 0 "([], [])"]
  have "handle_client_step (env0 ?m) server0 (socket0 [Data (frame ?p)]) =
          Continue server0 (socket0 [])"
    unfolding e by (rule conjunct1)
  with h1 h2 h3 h4 h5 h6 h7 h8 show ?thesis by blast
qed

section \<open>Requests for a name that is not in the catalog\<close>

text \<open>When the requested name is a key of the catalog but its file is gone from the disk,
  \<open>_handle_file_request\<close> answers \<open>File not found\<close> and the loop goes on.\<close>

lemma file_request_missing_on_disk:
  assumes "py_get message ''filename'' JNull = Inr (JStr name)" and "name \<noteq> []"
    and "map_of (shared_files st) name = Some file_info" and "fs st (fi_path file_info) = None"
  shows "handle_file_request ev st sock message =
     (case send_message st sock
             (JDict [(''type'', JStr ''file_response''), (''success'', JBool False),
                     (''error'', JStr ''File not found'')]) of
        (ok, st1, sock1) \<Rightarrow> (None, st1, sock1))"
  using assms by (simp add: handle_file_request_def os_path_exists_def)

text \<open>When the name is not a key of the catalog, \<open>get_file_path\<close> returns \<open>None\<close> and
  \<open>os.path.exists(None)\<close> raises \<open>TypeError\<close>: nothing is sent and the exception leaves the
  handler loop.\<close>

lemma file_request_unknown_name:
  assumes "py_get message ''filename'' JNull = Inr (JStr name)" and "name \<noteq> []"
    and "map_of (shared_files st) name = None"
  shows "handle_file_request ev st sock message = (Some TypeError, st, sock)"
  using assms by (simp add: handle_file_request_def os_path_exists_def)

lemma handle_client_loop_unknown_name:
  assumes "rx_starts_with (rx sock) (frame payload)"
    and "payload \<noteq> []" and "length payload \<le> 1048576"
    and "json_loads ev payload = Inr message"
    and "py_get message ''type'' JNull = Inr (JStr ''file_request'')"
    and "py_get message ''filename'' JNull = Inr (JStr name)" and "name \<noteq> []"
    and "map_of (shared_files st) name = None"
    and "is_running st"
  shows "handle_client_loop ev st sock =
           (Some TypeError, st, sock\<lparr>rx := rx_drop (length (frame payload)) (rx sock)\<rparr>)"
proof -
  let ?sock' = "sock\<lparr>rx := rx_drop (length (frame payload)) (rx sock)\<rparr>"
  have pm: "process_message ev st ?sock' message = (Some TypeError, st, ?sock')"
    using assms(5) by (simp add: process_message_def file_request_unknown_name [OF assms(6,7,8)])
  have step: "handle_client_step ev st sock = Raise TypeError st ?sock'"
    by (simp add: handle_client_step_frame [OF assms(1,2,3)] assms(4) pm)
  show ?thesis
    using assms(9) step by (subst handle_client_loop.simps) simp
qed

definition unknown_file_request :: json where
  "unknown_file_request = JDict [(''type'', JStr ''file_request''), (''filename'', JStr ''nope.txt'')]"

definition ping_message :: json where
  "ping_message = JDict [(''type'', JStr ''ping'')]"

lemma length_unknown_file_request: "length (json_dumps unknown_file_request) = 48"
  by (simp add: unknown_file_request_def dumps_str_def escape_char_def)

text \<open>
  C4.  The server of \<open>server0\<close> shares no file.  A client sends a \<open>file_request\<close> for
  \<open>nope.txt\<close> and then a \<open>ping\<close>.  The handler sends nothing (\<open>tx\<close> stays empty: no
  \<open>File not found\<close> response), logs \<open>Client handler error\<close> for the \<open>TypeError\<close>, closes the
  socket and leaves the \<open>ping\<close> unread.
\<close>

theorem unknown_file_request_aborts_connection:
  "handle_client (env0 unknown_file_request) server0
     (socket0 [Data (frame (json_dumps unknown_file_request)),
               Data (frame (json_dumps ping_message))])
     0 (''00:11:22:33:44:55'', ''1'') =
   (server0\<lparr>connections := [], log := [LogClientHandlerError TypeError],
            events := [PeerDisconnected ''00:11:22:33:44:55'' ''1'']\<rparr>,
    \<lparr>rx = [Data (frame (json_dumps ping_message))], tx = [], tx_plan = [], closed = True\<rparr>)"
proof -
  let ?p = "json_dumps unknown_file_request"
  let ?es = "[Data (frame ?p), Data (frame (json_dumps ping_message))]"
  have h1: "rx_starts_with (rx (socket0 ?es)) (frame ?p)"
    by (simp add: socket0_def rx_starts_with_cons)
  have h2: "?p \<noteq> []" using length_unknown_file_request by auto
  have h3: "length ?p \<le> 1048576" by (simp add: length_unknown_file_request)
  have h4: "json_loads (env0 unknown_file_request) ?p = Inr unknown_file_request"
    by (simp add: env0_def)
  have h5: "py_get unknown_file_request ''type'' JNull = Inr (JStr ''file_request'')"
    by (simp add: unknown_file_request_def)
  have h6: "py_get unknown_file_request ''filename'' JNull = Inr (JStr ''nope.txt'')"
    by (simp add: unknown_file_request_def)
  have h7: "''nope.txt'' \<noteq> []" by simp
  have h8: "map_of (shared_files server0) ''nope.txt'' = None" by (simp add: server0_def)
  have h9: "is_running server0" by (simp add: server0_def)
  have r: "rx (socket0 ?es) = ?es" by (simp add: socket0_def)
  have dr: "rx_drop (length (frame ?p)) ?es = [Data (frame (json_dumps ping_message))]"
    by (rule rx_drop_frame [OF h3])
  have "handle_client_loop (env0 unknown_file_request) server0 (socket0 ?es) =
          (Some TypeError, server0, (socket0 ?es)\<lparr>rx := [Data (frame (json_dumps ping_message))]\<rparr>)"
    using handle_client_loop_unknown_name [OF h1 h2 h3 h4 h5 h6 h7 h8 h9] unfolding r dr .
  then show ?thesis
    by (simp add: handle_client_def Let_def log_msg_def close_def server0_def socket0_def
             del: json_dumps.simps)
qed

section \<open>The limit on the declared length of a frame\<close>

text \<open>What one turn of the handler loop does with a frame, by the length \<open>n\<close> that its prefix
  declares.  Only the prefix is assumed to arrive, and the payload too when \<open>n\<close> is within
  the limit.\<close>

lemma handle_client_step_declared_length:
  assumes p: "to_bytes4 n = Inr prefix"
    and sw: "rx_starts_with (rx sock) prefix"
    and pl: "n \<le> 1048576 \<longrightarrow> length payload = n \<and> rx_starts_with (rx sock) (prefix @ payload)"
  shows "handle_client_step ev st sock =
     (if 1048576 < n \<or> n = 0 then Break st (sock\<lparr>rx := rx_drop 4 (rx sock)\<rparr>)
      else
        (case (case json_loads ev payload of
                 Inl e \<Rightarrow> (Some e, st, sock\<lparr>rx := rx_drop (4 + n) (rx sock)\<rparr>)
               | Inr message \<Rightarrow>
                   process_message ev st (sock\<lparr>rx := rx_drop (4 + n) (rx sock)\<rparr>) message) of
           (None, st1, sock3) \<Rightarrow> Continue st1 sock3
         | (Some e, st1, sock3) \<Rightarrow>
             if e = JSONDecodeError then Continue (log_msg st1 LogInvalidJSON) sock3
             else Raise e st1 sock3))"
proof -
  note fb = from_bytes_to_bytes4 [OF p]
  from sw fb(2) have av: "4 \<le> rx_avail (rx sock)" and tk: "rx_take 4 (rx sock) = prefix"
    by (simp_all add: rx_starts_with_def)
  have r1: "receive_exact sock 4 [] = (Inr (Some prefix), sock\<lparr>rx := rx_drop 4 (rx sock)\<rparr>)"
    using receive_exact_avail [of 4 "[]" sock] av tk by simp
  from fb(2) have pne: "prefix \<noteq> []" by auto
  show ?thesis
  proof (cases "1048576 < n")
    case True
    then show ?thesis
      unfolding handle_client_step_def r1 using pne by (simp add: fb(1) Let_def)
  next
    case False
    with pl have len: "length payload = n" and sw2: "rx_starts_with (rx sock) (prefix @ payload)"
      by simp_all
    show ?thesis
    proof (cases "n = 0")
      case True
      have "receive_exact (sock\<lparr>rx := rx_drop 4 (rx sock)\<rparr>) 0 [] =
              (Inr (Some []), sock\<lparr>rx := rx_drop 4 (rx sock)\<rparr>)"
        by (simp add: receive_exact.simps)
      with True show ?thesis
        unfolding handle_client_step_def r1 using pne by (simp add: fb(1) Let_def)
    next
      case n0: False
      from False len have l: "length payload \<le> 1048576" by simp
      from p len have fr: "frame payload = prefix @ payload" by (simp add: frame_def)
      from sw2 have sw3: "rx_starts_with (rx sock) (frame payload)" by (simp add: fr)
      from n0 len have ne: "payload \<noteq> []" by auto
      have lf: "length (frame payload) = 4 + n" by (simp add: fr fb(2) len)
      from False n0 show ?thesis
        by (simp add: handle_client_step_frame [OF sw3 ne l, unfolded lf])
    qed
  qed
qed

text \<open>
  C6, as the code has it.  A frame whose prefix declares more than 1,048,576 bytes ends the
  handler loop with the state unchanged and with exactly the four bytes of the prefix taken
  from the stream: no byte behind the prefix is read.  So does a frame that declares the
  length 0.  A frame that declares between 1 and 1,048,576 bytes is read in full and its
  payload is parsed and dispatched, after which the loop goes on (or ends with the
  exception that the dispatch raised).
\<close>

theorem frame_length_enforcement:
  assumes "to_bytes4 n = Inr prefix"
    and "rx_starts_with (rx sock) prefix"
    and "n \<le> 1048576 \<longrightarrow> length payload = n \<and> rx_starts_with (rx sock) (prefix @ payload)"
    and "is_running st"
  shows "handle_client_loop ev st sock =
     (if 1048576 < n \<or> n = 0 then (None, st, sock\<lparr>rx := rx_drop 4 (rx sock)\<rparr>)
      else
        (case (case json_loads ev payload of
                 Inl e \<Rightarrow> (Some e, st, sock\<lparr>rx := rx_drop (4 + n) (rx sock)\<rparr>)
               | Inr message \<Rightarrow>
                   process_message ev st (sock\<lparr>rx := rx_drop (4 + n) (rx sock)\<rparr>) message) of
           (None, st1, sock3) \<Rightarrow> handle_client_loop ev st1 sock3
         | (Some e, st1, sock3) \<Rightarrow>
             if e = JSONDecodeError then handle_client_loop ev (log_msg st1 LogInvalidJSON) sock3
             else (Some e, st1, sock3)))"
  using assms(4)
  by (subst handle_client_loop.simps)
     (simp add: handle_client_step_declared_length [OF assms(1,2,3)]
           split: prod.splits option.splits sum.splits)

theorem frame_length_enforcement_witness:
  "to_bytes4 1048577 = Inr [CHR 0x00, CHR 0x10, CHR 0x00, CHR 0x01] \<and>
   rx_starts_with (rx (socket0 [Data [CHR 0x00, CHR 0x10, CHR 0x00, CHR 0x01], Data ''payload'']))
     [CHR 0x00, CHR 0x10, CHR 0x00, CHR 0x01] \<and>
   is_running server0 \<and>
   handle_client_loop (env0 ping_message) server0
       (socket0 [Data [CHR 0x00, CHR 0x10, CHR 0x00, CHR 0x01], Data ''payload'']) =
     (None, server0, socket0 [Data ''payload''])"
proof -
  let ?prefix = "[CHR 0x00, CHR 0x10, CHR 0x00, CHR 0x01]"
  let ?sock = "socket0 [Data ?prefix, Data ''payload'']"
  have h1: "to_bytes4 1048577 = Inr ?prefix"
    by (simp add: to_bytes4_def char_of_def bit_simps)
  have h2: "rx_starts_with (rx ?sock) ?prefix"
    by (simp add: socket0_def rx_starts_with_cons)
  have h3: "1048577 \<le> (1048576::nat) \<longrightarrow>
              length ([]::bytes) = 1048577 \<and> rx_starts_with (rx ?sock) (?prefix @ [])"
    by simp
  have h4: "is_running server0" by (simp add: server0_def)
  have e: "?sock\<lparr>rx := rx_drop 4 (rx ?sock)\<rparr> = socket0 [Data ''payload'']"
    by (simp add: socket0_def)
  from frame_length_enforcement [OF h1 h2 h3 h4, of "env0 ping_message"]
  have "handle_client_loop (env0 ping_message) server0 ?sock =
          (None, server0, socket0 [Data ''payload''])"
    unfolding e by simp
  with h1 h2 h4 show ?thesis by blast
qed

text \<open>
  A frame that declares the length 0 (the four bytes \<open>00 00 00 00\<close>, which is \<open>frame []\<close>)
  is within the limit, and it is not dispatched: \<open>_receive_exact(sock, 0)\<close> returns \<open>b''\<close>,
  which \<open>if not message_data\<close> takes for a closed connection.  The handler closes the socket
  without a log entry and the \<open>ping\<close> that follows, a frame within the limit too, is
  neither read nor answered.
\<close>

theorem zero_length_frame_closes_connection:
  "handle_client (env0 ping_message) server0
     (socket0 [Data (frame []), Data (frame (json_dumps ping_message))])
     0 (''00:11:22:33:44:55'', ''1'') =
   (server0\<lparr>connections := [], events := [PeerDisconnected ''00:11:22:33:44:55'' ''1'']\<rparr>,
    \<lparr>rx = [Data (frame (json_dumps ping_message))], tx = [], tx_plan = [], closed = True\<rparr>)"
proof -
  let ?es = "[Data (frame []), Data (frame (json_dumps ping_message))]"
  let ?sock = "socket0 ?es"
  have r: "rx ?sock = ?es" by (simp add: socket0_def)
  have h1: "to_bytes4 0 = Inr (frame [])" by (simp add: frame_def to_bytes4_def)
  have h2: "rx_starts_with (rx ?sock) (frame [])"
    unfolding r by (rule rx_starts_with_cons)
  have h3: "0 \<le> (1048576::nat) \<longrightarrow>
              length ([]::bytes) = 0 \<and> rx_starts_with (rx ?sock) (frame [] @ [])"
    using h2 by simp
  have l4: "length (frame []) = 4" using length_frame [of "[]"] by simp
  have dr: "rx_drop 4 ?es = [Data (frame (json_dumps ping_message))]"
    using rx_drop_frame [of "[]" "[Data (frame (json_dumps ping_message))]"] l4 by simp
  have step: "handle_client_step (env0 ping_message) server0 ?sock =
                Break server0 (?sock\<lparr>rx := [Data (frame (json_dumps ping_message))]\<rparr>)"
    using handle_client_step_declared_length [OF h1 h2 h3, of "env0 ping_message" server0]
    unfolding r dr by simp
  have "handle_client_loop (env0 ping_message) server0 ?sock =
          (None, server0, ?sock\<lparr>rx := [Data (frame (json_dumps ping_message))]\<rparr>)"
    by (subst handle_client_loop.simps) (simp add: step, simp add: server0_def)
  then show ?thesis
    by (simp add: handle_client_def Let_def close_def server0_def socket0_def
             del: json_dumps.simps)
qed

section \<open>The catalog under the dispatch\<close>

lemma send_message_state:
  "send_message st sock m = (ok, st1, sock1) \<Longrightarrow>
   shared_files st1 = shared_files st \<and> shared_files_db st1 = shared_files_db st \<and>
   fs st1 = fs st \<and> is_running st1 = is_running st"
  by (auto simp: send_message_def Let_def log_msg_def split: sum.splits prod.splits)

lemma fold_delete_filter: "fold AList.delete ks xs = filter (\<lambda>item. fst item \<notin> set ks) xs"
proof (induction ks arbitrary: xs)
  case Nil
  then show ?case by simp
next
  case (Cons k ks)
  have "AList.delete k xs = filter (\<lambda>item. fst item \<noteq> k) xs"
    by (induction xs) (auto simp: AList.delete_eq)
  then show ?case
    by (simp add: Cons.IH conj_commute)
qed

text \<open>With the keys of a dict distinct, the deletions of \<open>get_shared_files\<close> leave exactly the
  entries whose path exists, and the database file is rewritten when one was deleted.\<close>

lemma get_shared_files_prunes:
  assumes "distinct (map fst (shared_files st))"
  shows "get_shared_files ev st =
     (let kept = filter (\<lambda>item. fs st (fi_path (snd item)) \<noteq> None) (shared_files st);
          st1 = st\<lparr>shared_files := kept\<rparr>
      in (map fst kept, if kept \<noteq> shared_files st then snd (save_shared_files ev st1) else st1))"
proof -
  let ?missing = "\<lambda>item. fs st (fi_path (snd item)) = None"
  let ?ks = "map fst (filter ?missing (shared_files st))"
  have mem: "fst item \<notin> set ?ks \<longleftrightarrow> \<not> ?missing item" if "item \<in> set (shared_files st)" for item
  proof
    assume "fst item \<notin> set ?ks"
    with that show "\<not> ?missing item" by force
  next
    assume ex: "\<not> ?missing item"
    show "fst item \<notin> set ?ks"
    proof
      assume "fst item \<in> set ?ks"
      then obtain item' where i': "item' \<in> set (shared_files st)" "?missing item'"
        "fst item' = fst item"
        by auto
      from assms that i'(1,3) have "item' = item"
        by (metis eq_key_imp_eq_value prod.collapse)
      with i'(2) ex show False by simp
    qed
  qed
  have kept: "fold AList.delete ?ks (shared_files st) =
                filter (\<lambda>item. \<not> ?missing item) (shared_files st)"
    unfolding fold_delete_filter using mem by (intro filter_cong) auto
  have ne: "?ks \<noteq> [] \<longleftrightarrow> filter (\<lambda>item. \<not> ?missing item) (shared_files st) \<noteq> shared_files st"
    by (auto simp: filter_empty_conv filter_id_conv)
  show ?thesis
    unfolding get_shared_files_def Let_def kept using ne
    by (auto simp: save_shared_files_def)
qed

lemma get_shared_files_state:
  assumes d: "distinct (map fst (shared_files st))"
    and g: "get_shared_files ev st = (names, st1)"
  shows "names = map fst (filter (\<lambda>item. fs st (fi_path (snd item)) \<noteq> None) (shared_files st))"
    and "shared_files st1 = filter (\<lambda>item. fs st (fi_path (snd item)) \<noteq> None) (shared_files st)"
    and "fs st1 =
           (if filter (\<lambda>item. fs st (fi_path (snd item)) \<noteq> None) (shared_files st) \<noteq> shared_files st \<and>
               shared_files_db st \<notin> set (read_only st)
            then (fs st)(shared_files_db st \<mapsto>
                   json_dump_db ev (filter (\<lambda>item. fs st (fi_path (snd item)) \<noteq> None) (shared_files st)))
            else fs st)"
  using g unfolding get_shared_files_prunes [OF d]
  by (auto simp: Let_def save_shared_files_def split: if_splits)

lemma handle_file_request_catalog:
  assumes "handle_file_request ev st sock m = (e, st1, sock1)"
  shows "shared_files st1 = shared_files st \<and> shared_files_db st1 = shared_files_db st \<and>
         fs st1 = fs st"
  using assms
  by (auto simp: handle_file_request_def log_msg_def
           split: sum.splits if_splits option.splits prod.splits dest!: send_message_state)

lemma file_list_entries_names:
  assumes d: "distinct (map fst (shared_files st))"
    and ex: "\<forall>item \<in> set (shared_files st). fs st (fi_path (snd item)) \<noteq> None"
    and sub: "set names \<subseteq> fst ` set (shared_files st)"
  shows "\<exists>files. file_list_entries ev st names = Inr files \<and>
           map (\<lambda>f. py_get f ''name'' JNull) files = map (\<lambda>n. Inr (JStr n)) names"
  using sub
proof (induction names)
  case Nil
  then show ?case by simp
next
  case (Cons name names)
  then obtain files where f: "file_list_entries ev st names = Inr files"
    and n: "map (\<lambda>f. py_get f ''name'' JNull) files = map (\<lambda>n. Inr (JStr n)) names"
    by auto
  from Cons.prems obtain file_info where i: "(name, file_info) \<in> set (shared_files st)"
    by auto
  with d have m: "map_of (shared_files st) name = Some file_info" by simp
  from ex i obtain content where c: "fs st (fi_path file_info) = Some content" by fastforce
  show ?case
    by (simp add: m c f n os_path_exists_def)
qed

lemma handle_file_list_request_catalog:
  assumes d: "distinct (map fst (shared_files st))"
  shows "\<exists>files.
     handle_file_list_request ev st sock =
       (case send_message (snd (get_shared_files ev st)) sock
               (JDict [(''type'', JStr ''file_list_response''), (''files'', JList files)]) of
          (ok, st2, sock1) \<Rightarrow> (None, st2, sock1)) \<and>
     map (\<lambda>f. py_get f ''name'' JNull) files =
       map (\<lambda>item. Inr (JStr (fst item)))
         (filter (\<lambda>item. fs st (fi_path (snd item)) \<noteq> None) (shared_files st)) \<and>
     shared_files (fst (snd (handle_file_list_request ev st sock))) =
       filter (\<lambda>item. fs st (fi_path (snd item)) \<noteq> None) (shared_files st) \<and>
     fs (fst (snd (handle_file_list_request ev st sock))) =
       (if filter (\<lambda>item. fs st (fi_path (snd item)) \<noteq> None) (shared_files st) \<noteq> shared_files st \<and>
           shared_files_db st \<notin> set (read_only st)
        then (fs st)(shared_files_db st \<mapsto>
               json_dump_db ev (filter (\<lambda>item. fs st (fi_path (snd item)) \<noteq> None) (shared_files st)))
        else fs st)"
proof -
  let ?kept = "filter (\<lambda>item. fs st (fi_path (snd item)) \<noteq> None) (shared_files st)"
  let ?fs = "if ?kept \<noteq> shared_files st \<and> shared_files_db st \<notin> set (read_only st)
             then (fs st)(shared_files_db st \<mapsto> json_dump_db ev ?kept) else fs st"
  obtain names st1 where g: "get_shared_files ev st = (names, st1)"
    by (cases "get_shared_files ev st")
  note gs = get_shared_files_state [OF d g]
  have names: "names = map fst ?kept" and sf: "shared_files st1 = ?kept" and fs1: "fs st1 = ?fs"
    by (rule gs)+
  have d1: "distinct (map fst (shared_files st1))"
    unfolding sf using d by (rule distinct_map_filter)
  have ex1: "\<forall>item \<in> set (shared_files st1). fs st1 (fi_path (snd item)) \<noteq> None"
    unfolding sf fs1 by auto
  have sub: "set names \<subseteq> fst ` set (shared_files st1)"
    by (simp add: names sf)
  from file_list_entries_names [OF d1 ex1 sub] obtain files where
    f: "file_list_entries ev st1 names = Inr files" and
    n: "map (\<lambda>f. py_get f ''name'' JNull) files = map (\<lambda>n. Inr (JStr n)) names"
    by blast
  let ?resp = "JDict [(''type'', JStr ''file_list_response''), (''files'', JList files)]"
  obtain ok st2 sock1 where s: "send_message st1 sock ?resp = (ok, st2, sock1)"
    by (cases "send_message st1 sock ?resp")
  have h: "handle_file_list_request ev st sock = (None, st2, sock1)"
    by (simp add: handle_file_list_request_def g f s)
  from send_message_state [OF s] have "shared_files st2 = ?kept" and "fs st2 = ?fs"
    by (simp_all only: sf fs1)
  moreover have "map (\<lambda>f. py_get f ''name'' JNull) files = map (\<lambda>item. Inr (JStr (fst item))) ?kept"
    by (simp add: n names)
  ultimately show ?thesis
    unfolding h g by (intro exI [of _ files]) (simp add: s)
qed

lemma process_message_catalog:
  assumes "py_get m ''type'' JNull \<noteq> Inr (JStr ''file_list_request'')"
  shows "shared_files (fst (snd (process_message ev st sock m))) = shared_files st \<and>
         fs (fst (snd (process_message ev st sock m))) = fs st"
proof -
  have a: "shared_files (fst (snd (handle_file_request ev st sock m))) = shared_files st \<and>
           fs (fst (snd (handle_file_request ev st sock m))) = fs st"
    using handle_file_request_catalog [of ev st sock m] by (metis prod.collapse)
  have b: "\<And>x. shared_files (fst (snd (send_message st sock x))) = shared_files st \<and>
                fs (fst (snd (send_message st sock x))) = fs st"
    using send_message_state by (metis prod.collapse)
  from assms show ?thesis
    by (auto simp: process_message_def a log_msg_def split: sum.splits prod.splits)
       (metis b fst_conv snd_conv)+
qed

text \<open>A server whose catalog has two entries; the file of the second is gone from the disk.\<close>

definition stale_server :: net_state where
  "stale_server = server0
     \<lparr>shared_files :=
        [(''a.txt'', \<lparr>fi_path = ''/srv/a.txt'', fi_size = 3, fi_hash = ''ba78'', fi_added_time = 0\<rparr>),
         (''gone.txt'', \<lparr>fi_path = ''/srv/gone.txt'', fi_size = 5, fi_hash = ''2cf2'', fi_added_time = 0\<rparr>)],
      fs := [''/srv/a.txt'' \<mapsto> ''abc'']\<rparr>"

lemma distinct_stale_server: "distinct (map fst (shared_files stale_server))"
  by (simp add: stale_server_def server0_def)

lemma kept_stale_server:
  "filter (\<lambda>item. fs stale_server (fi_path (snd item)) \<noteq> None) (shared_files stale_server) =
     [(''a.txt'', \<lparr>fi_path = ''/srv/a.txt'', fi_size = 3, fi_hash = ''ba78'', fi_added_time = 0\<rparr>)]"
  by (simp add: stale_server_def server0_def)

text \<open>
  C3, as the code has it.  Serving a \<open>file_list_request\<close> does change the catalog:
  \<open>get_shared_files\<close> deletes every entry whose path is not on the disk, and the response
  lists the names of the entries that remain, in their order.  The entries whose path exists
  are kept as they are.  When an entry was deleted, the database file is rewritten with the
  catalog that remains, unless it cannot be opened for writing; no other file on the disk
  changes, and when no entry was deleted no file changes at all.  Every other message
  (\<open>file_request\<close>, \<open>ping\<close>, an unknown type) leaves the catalog and the disk as they were.
\<close>

theorem file_list_request_prunes_catalog:
  assumes "distinct (map fst (shared_files st))"
  shows "(\<exists>files.
     handle_file_list_request ev st sock =
       (case send_message (snd (get_shared_files ev st)) sock
               (JDict [(''type'', JStr ''file_list_response''), (''files'', JList files)]) of
          (ok, st2, sock1) \<Rightarrow> (None, st2, sock1)) \<and>
     map (\<lambda>f. py_get f ''name'' JNull) files =
       map (\<lambda>item. Inr (JStr (fst item)))
         (filter (\<lambda>item. fs st (fi_path (snd item)) \<noteq> None) (shared_files st)) \<and>
     shared_files (fst (snd (handle_file_list_request ev st sock))) =
       filter (\<lambda>item. fs st (fi_path (snd item)) \<noteq> None) (shared_files st) \<and>
     fs (fst (snd (handle_file_list_request ev st sock))) =
       (if filter (\<lambda>item. fs st (fi_path (snd item)) \<noteq> None) (shared_files st) \<noteq> shared_files st \<and>
           shared_files_db st \<notin> set (read_only st)
        then (fs st)(shared_files_db st \<mapsto>
               json_dump_db ev (filter (\<lambda>item. fs st (fi_path (snd item)) \<noteq> None) (shared_files st)))
        else fs st)) \<and>
   (\<forall>m. py_get m ''type'' JNull \<noteq> Inr (JStr ''file_list_request'') \<longrightarrow>
        shared_files (fst (snd (process_message ev st sock m))) = shared_files st \<and>
        fs (fst (snd (process_message ev st sock m))) = fs st)"
  using handle_file_list_request_catalog [OF assms, of ev sock] process_message_catalog
  by blast

theorem file_list_request_prunes_catalog_witness:
  "distinct (map fst (shared_files stale_server)) \<and>
   shared_files (fst (snd (handle_file_list_request (env0 JNull) stale_server (socket0 [])))) =
     [(''a.txt'', \<lparr>fi_path = ''/srv/a.txt'', fi_size = 3, fi_hash = ''ba78'', fi_added_time = 0\<rparr>)] \<and>
   fs (fst (snd (handle_file_list_request (env0 JNull) stale_server (socket0 [])))) =
     [''/srv/a.txt'' \<mapsto> ''abc'', ''/home/u/.p2p_file_share/shared_files.json'' \<mapsto> ''a.txt''] \<and>
   shared_files (fst (snd (process_message (env0 JNull) stale_server (socket0 []) ping_message))) =
     shared_files stale_server"
proof -
  have p: "py_get ping_message ''type'' JNull \<noteq> Inr (JStr ''file_list_request'')"
    by (simp add: ping_message_def)
  have ne: "[(''a.txt'', \<lparr>fi_path = ''/srv/a.txt'', fi_size = 3, fi_hash = ''ba78'', fi_added_time = 0\<rparr>)]
              \<noteq> shared_files stale_server"
    by (simp add: stale_server_def server0_def)
  have w: "shared_files_db stale_server \<notin> set (read_only stale_server)"
    by (simp add: stale_server_def server0_def)
  have f: "(fs stale_server)(shared_files_db stale_server \<mapsto>
              json_dump_db (env0 JNull)
                [(''a.txt'', \<lparr>fi_path = ''/srv/a.txt'', fi_size = 3, fi_hash = ''ba78'', fi_added_time = 0\<rparr>)]) =
           [''/srv/a.txt'' \<mapsto> ''abc'', ''/home/u/.p2p_file_share/shared_files.json'' \<mapsto> ''a.txt'']"
    by (simp add: stale_server_def server0_def env0_def)
  from file_list_request_prunes_catalog [OF distinct_stale_server, of "env0 JNull" "socket0 []"] p
  show ?thesis
    unfolding kept_stale_server using distinct_stale_server ne w f by auto
qed

text \<open>The claim as stated fails on \<open>stale_server\<close>: after the \<open>file_list_request\<close> the entry
  \<open>gone.txt\<close> is no longer in the catalog.\<close>

theorem file_list_request_mutates_catalog:
  "shared_files (fst (snd (handle_file_list_request (env0 JNull) stale_server (socket0 [])))) \<noteq>
     shared_files stale_server \<and>
   map_of (shared_files stale_server) ''gone.txt'' \<noteq> None \<and>
   map_of (shared_files (fst (snd (handle_file_list_request (env0 JNull) stale_server (socket0 [])))))
     ''gone.txt'' = None"
proof -
  from handle_file_list_request_catalog [OF distinct_stale_server, of "env0 JNull" "socket0 []"]
  have "shared_files (fst (snd (handle_file_list_request (env0 JNull) stale_server (socket0 [])))) =
          [(''a.txt'', \<lparr>fi_path = ''/srv/a.txt'', fi_size = 3, fi_hash = ''ba78'', fi_added_time = 0\<rparr>)]"
    unfolding kept_stale_server by blast
  then show ?thesis
    by (simp add: stale_server_def server0_def)
qed

section \<open>The client\<close>

text \<open>
  What the transport answers is a parameter of the client functions: \<open>services\<close> is the
  result of \<open>bluetooth.find_service\<close> (a list of service dicts, or the exception it raised),
  and \<open>connect port\<close> is the outcome of \<open>client_socket.connect((peer_address, port))\<close>: the
  connected socket or the exception.  The third component of a result is the socket when a
  connection was opened and \<open>None\<close> when \<open>connect\<close> was not reached or failed.
\<close>

type_synonym service = "(string \<times> json) list"

text \<open>The two \<open>except\<close> clauses of \<open>get_peer_files\<close> and of \<open>request_file\<close>.\<close>

definition except_get_files :: "net_state \<Rightarrow> string \<Rightarrow> error \<Rightarrow> net_state" where
  "except_get_files st peer_address e =
     (if e = BluetoothError then log_msg st (LogBluetoothErrorGettingFiles peer_address e)
      else log_msg st (LogFailedToGetFiles peer_address e))"

definition except_download :: "net_state \<Rightarrow> string \<Rightarrow> string \<Rightarrow> error \<Rightarrow> net_state" where
  "except_download st filename peer_address e =
     (if e = BluetoothError then log_msg st (LogBluetoothErrorDownloading filename e)
      else log_msg st (LogFailedToDownload filename peer_address e))"

definition get_peer_files ::
    "env \<Rightarrow> net_state \<Rightarrow> string \<Rightarrow> error + service list \<Rightarrow> (json \<Rightarrow> error + socket) \<Rightarrow>
     json \<times> net_state \<times> socket option" where
  "get_peer_files ev st peer_address services connect =
     (case services of
        Inl e \<Rightarrow> (JNull, except_get_files st peer_address e, None)
      | Inr [] \<Rightarrow> (JNull, log_msg st (LogServiceNotFound peer_address), None)
      | Inr (service # _) \<Rightarrow>
          (case map_of service ''port'' of
             None \<Rightarrow> (JNull, except_get_files st peer_address KeyError, None)
           | Some port \<Rightarrow>
               (case connect port of
                  Inl e \<Rightarrow> (JNull, except_get_files st peer_address e, None)
                | Inr sock \<Rightarrow>
                    (case send_message st sock (JDict [(''type'', JStr ''file_list_request'')]) of
                       (ok, st1, sock1) \<Rightarrow>
                         if \<not> ok then (JNull, st1, Some sock1)
                         else
                           (case receive_message ev st1 sock1 of
                              (response, st2, sock2) \<Rightarrow>
                                if \<not> truthy response then (JNull, st2, Some (close sock2))
                                else
                                  (case py_get response ''type'' JNull of
                                     Inl e \<Rightarrow>
                                       (JNull, except_get_files st2 peer_address e,
                                        Some (close sock2))
                                   | Inr msg_type \<Rightarrow>
                                       if msg_type = JStr ''file_list_response'' then
                                         (case py_get response ''files'' (JList []) of
                                            Inl e \<Rightarrow>
                                              (JNull, except_get_files st2 peer_address e,
                                               Some (close sock2))
                                          | Inr files \<Rightarrow> (files, st2, Some (close sock2)))
                                       else (JNull, st2, Some (close sock2))))))))"

text \<open>A number as the comparisons and the subtraction of the download loop take it: an
  \<open>int\<close>, a \<open>bool\<close> as 0 or 1, and \<open>TypeError\<close> for \<open>None\<close>, a string, a list or a dict.\<close>

fun as_int :: "json \<Rightarrow> error + int" where
  "as_int (JInt i) = Inr i"
| "as_int (JBool b) = Inr (if b then 1 else 0)"
| "as_int _ = Inl TypeError"

text \<open>The \<open>while bytes_received < file_size\<close> loop of \<open>request_file\<close>: the exception that
  ended it, if any, the socket, \<open>bytes_received\<close>, and the chunks written to the file.\<close>

function recv_file_loop ::
    "socket \<Rightarrow> int \<Rightarrow> nat \<Rightarrow> bytes list \<Rightarrow> error option \<times> socket \<times> nat \<times> bytes list" where
  "recv_file_loop sock file_size bytes_received written =
     (if int bytes_received < file_size then
        (let remaining = min 4096 (file_size - int bytes_received) in
         case recv sock (nat remaining) of
           (Inl e, sock1) \<Rightarrow> (Some e, sock1, bytes_received, written)
         | (Inr chunk, sock1) \<Rightarrow>
             if chunk = [] then (None, sock1, bytes_received, written)
             else recv_file_loop sock1 file_size (bytes_received + length chunk) (written @ [chunk]))
      else (None, sock, bytes_received, written))"
  by pat_completeness auto
termination
  by (relation "measure (\<lambda>(sock, file_size, bytes_received, written).
                  nat (file_size - int bytes_received))")
     (auto simp: neq_Nil_conv)

declare recv_file_loop.simps [simp del]

text \<open>\<open>request_file\<close> from \<open>with open(save_path, 'wb')\<close> on: \<open>open\<close> raises \<open>IOError\<close> or the
  file is created empty, every chunk received is appended to it, and the count of bytes
  decides the result.  An exception inside the \<open>with\<close> block leaves the file as written so
  far.  Nothing in \<open>request_file\<close> deletes the file.\<close>

definition request_file_data ::
    "net_state \<Rightarrow> socket \<Rightarrow> string \<Rightarrow> string \<Rightarrow> string \<Rightarrow> json \<Rightarrow>
     bool \<times> net_state \<times> socket option" where
  "request_file_data st sock peer_address filename save_path size_value =
     (if save_path \<in> set (read_only st) then
        (False, except_download st filename peer_address IOError, Some sock)
      else
        let st1 = st\<lparr>fs := (fs st)(save_path \<mapsto> [])\<rparr> in
        case as_int size_value of
          Inl e \<Rightarrow> (False, except_download st1 filename peer_address e, Some sock)
        | Inr file_size \<Rightarrow>
            (case recv_file_loop sock file_size 0 [] of
               (exc, sock1, bytes_received, written) \<Rightarrow>
                 let st2 = st1\<lparr>fs := (fs st1)(save_path \<mapsto> concat written)\<rparr> in
                 (case exc of
                    Some e \<Rightarrow> (False, except_download st2 filename peer_address e, Some sock1)
                  | None \<Rightarrow>
                      if int bytes_received = file_size then
                        (True,
                         if on_file_received st2
                         then st2\<lparr>events := events st2 @ [FileReceived filename peer_address]\<rparr>
                         else st2,
                         Some (close sock1))
                      else
                        (False, log_msg st2 (LogIncompleteTransfer bytes_received size_value),
                         Some (close sock1)))))"

text \<open>\<open>request_file\<close> from the response on.\<close>

definition request_file_response ::
    "net_state \<Rightarrow> socket \<Rightarrow> string \<Rightarrow> string \<Rightarrow> string \<Rightarrow> json \<Rightarrow>
     bool \<times> net_state \<times> socket option" where
  "request_file_response st sock peer_address filename save_path response =
     (if \<not> truthy response then
        (False, log_msg st (LogFileRequestFailed (JStr ''No response'')), Some (close sock))
      else
        (case py_get response ''success'' JNull of
           Inl e \<Rightarrow> (False, except_download st filename peer_address e, Some sock)
         | Inr success \<Rightarrow>
             if \<not> truthy success then
               (case py_get response ''error'' (JStr ''Unknown error'') of
                  Inl e \<Rightarrow> (False, except_download st filename peer_address e, Some sock)
                | Inr err \<Rightarrow> (False, log_msg st (LogFileRequestFailed err), Some (close sock)))
             else
               (case py_get response ''size'' (JInt 0) of
                  Inl e \<Rightarrow> (False, except_download st filename peer_address e, Some sock)
                | Inr size_value \<Rightarrow>
                    request_file_data st sock peer_address filename save_path size_value)))"

definition request_file ::
    "env \<Rightarrow> net_state \<Rightarrow> string \<Rightarrow> string \<Rightarrow> string \<Rightarrow> error + service list \<Rightarrow>
     (json \<Rightarrow> error + socket) \<Rightarrow> bool \<times> net_state \<times> socket option" where
  "request_file ev st peer_address filename save_path services connect =
     (case services of
        Inl e \<Rightarrow> (False, except_download st filename peer_address e, None)
      | Inr [] \<Rightarrow> (False, log_msg st (LogServiceNotFound peer_address), None)
      | Inr (service # _) \<Rightarrow>
          (case map_of service ''port'' of
             None \<Rightarrow> (False, except_download st filename peer_address KeyError, None)
           | Some port \<Rightarrow>
               (case connect port of
                  Inl e \<Rightarrow> (False, except_download st filename peer_address e, None)
                | Inr sock \<Rightarrow>
                    (case send_message st sock
                            (JDict [(''type'', JStr ''file_request''),
                                    (''filename'', JStr filename)]) of
                       (ok, st1, sock1) \<Rightarrow>
                         if \<not> ok then (False, st1, Some (close sock1))
                         else
                           (case receive_message ev st1 sock1 of
                              (response, st2, sock2) \<Rightarrow>
                                request_file_response st2 sock2 peer_address filename save_path
                                  response)))))"

section \<open>Sending and receiving one message\<close>

lemma send_message_ok:
  assumes "tx_plan sock = []" and "length (json_dumps m) < 2 ^ 32"
  shows "send_message st sock m = (True, st, sock\<lparr>tx := tx sock @ frame (json_dumps m)\<rparr>)"
proof -
  from assms(2) obtain prefix where p: "to_bytes4 (length (json_dumps m)) = Inr prefix"
    by (simp add: to_bytes4_def)
  show ?thesis
    using assms(1) by (simp add: send_message_def Let_def p send_def frame_def)
qed

lemma receive_message_frame:
  assumes sw: "rx_starts_with (rx sock) (frame payload)" and ne: "payload \<noteq> []"
    and len: "length payload \<le> 1048576"
  shows "receive_message ev st sock =
     (case json_loads ev payload of
        Inl e \<Rightarrow> (JNull, log_msg st (LogFailedToReceive e),
                  sock\<lparr>rx := rx_drop (length (frame payload)) (rx sock)\<rparr>)
      | Inr message \<Rightarrow> (message, st, sock\<lparr>rx := rx_drop (length (frame payload)) (rx sock)\<rparr>))"
proof -
  from receive_frame [OF sw len] obtain prefix where
    r1: "receive_exact sock 4 [] = (Inr (Some prefix), sock\<lparr>rx := rx_drop 4 (rx sock)\<rparr>)" and
    pne: "prefix \<noteq> []" and fb: "from_bytes prefix = length payload" and
    r2: "receive_exact (sock\<lparr>rx := rx_drop 4 (rx sock)\<rparr>) (length payload) [] =
           (Inr (Some payload), sock\<lparr>rx := rx_drop (length (frame payload)) (rx sock)\<rparr>)"
    by blast
  show ?thesis
    unfolding receive_message_def r1 using pne ne len
    by (simp add: fb r2 Let_def)
qed

lemma receive_message_oversize:
  assumes p: "to_bytes4 n = Inr prefix" and sw: "rx_starts_with (rx sock) prefix"
    and big: "1048576 < n"
  shows "receive_message ev st sock = (JNull, st, sock\<lparr>rx := rx_drop 4 (rx sock)\<rparr>)"
proof -
  note fb = from_bytes_to_bytes4 [OF p]
  from sw fb(2) have av: "4 \<le> rx_avail (rx sock)" and tk: "rx_take 4 (rx sock) = prefix"
    by (simp_all add: rx_starts_with_def)
  have r1: "receive_exact sock 4 [] = (Inr (Some prefix), sock\<lparr>rx := rx_drop 4 (rx sock)\<rparr>)"
    using receive_exact_avail [of 4 "[]" sock] av tk by simp
  from fb(2) have pne: "prefix \<noteq> []" by auto
  show ?thesis
    unfolding receive_message_def r1 using pne big by (simp add: fb(1) Let_def)
qed

lemma show_nat_nonempty: "show_nat n \<noteq> []"
  by (subst show_nat.simps) simp

lemma json_dumps_nonempty: "json_dumps m \<noteq> []"
  by (cases m) (simp_all add: show_int_def show_nat_nonempty dumps_str_def)

lemma rx_starts_with_prefix: "rx_starts_with (Data (xs @ ys) # es) xs"
  by (simp add: rx_starts_with_def)

section \<open>The JSON decoder\<close>

text \<open>
  \<open>json.loads(data.decode('utf-8'))\<close>, as the decoder of the standard library reads a text
  (\<open>json.decoder\<close>, \<open>json.scanner\<close>): the white space is space, tab, line feed and carriage return;
  a string ends at the first unescaped quote, may not hold a control character, and knows the
  escapes \<open>\" \\ \/ \b \f \n \r \t\<close> and \<open>\uXXXX\<close> with four hexadecimal digits; a number is
  \<open>-?(0|[1-9][0-9]*)\<close>, a fraction or an exponent making it a float; an object becomes a dict,
  a repeated key keeping its first place and its last value; after the value only white space
  may follow.  Every syntax error is \<open>JSONDecodeError\<close>.

  The result \<open>None\<close> says that the outcome has no counterpart here: the payload has a byte
  from 128 on (decoded by UTF-8 to a code point that may be above 255, or not at all), a
  \<open>\uXXXX\<close> from 256 on, or a float (\<open>NaN\<close> and \<open>Infinity\<close> too).  The functions for values,
  list elements and object members call each other; their first argument bounds the depth of
  the calls, and \<open>loads\<close> gives them more than the length of the text.
\<close>

type_synonym 'a parsed = "(error + 'a \<times> string) option"

definition bind_parsed :: "'a parsed \<Rightarrow> ('a \<Rightarrow> string \<Rightarrow> 'b parsed) \<Rightarrow> 'b parsed" where
  "bind_parsed p f =
     (case p of
        None \<Rightarrow> None
      | Some (Inl e) \<Rightarrow> Some (Inl e)
      | Some (Inr (x, rest)) \<Rightarrow> f x rest)"

definition is_ws :: "char \<Rightarrow> bool" where
  "is_ws c = (c = CHR '' '' \<or> c = CHR 0x09 \<or> c = CHR 0x0A \<or> c = CHR 0x0D)"

definition skip_ws :: "string \<Rightarrow> string" where
  "skip_ws cs = dropWhile is_ws cs"

definition is_digit :: "char \<Rightarrow> bool" where
  "is_digit c = (48 \<le> (of_char c :: nat) \<and> (of_char c :: nat) \<le> 57)"

definition hex_value :: "char \<Rightarrow> nat option" where
  "hex_value c =
     (let n = (of_char c :: nat)
      in if 48 \<le> n \<and> n \<le> 57 then Some (n - 48)
         else if 97 \<le> n \<and> n \<le> 102 then Some (n - 87)
         else if 65 \<le> n \<and> n \<le> 70 then Some (n - 55)
         else None)"

definition hex4 :: "string \<Rightarrow> nat option" where
  "hex4 cs =
     (if length cs = 4 \<and> list_all (\<lambda>c. hex_value c \<noteq> None) cs
      then Some (foldl (\<lambda>a c. a * 16 + the (hex_value c)) 0 cs)
      else None)"

definition unescape :: "char \<Rightarrow> char option" where
  "unescape e =
     (if e = CHR ''\"'' then Some CHR ''\"''
      else if e = CHR 0x5C then Some CHR 0x5C
      else if e = CHR ''/'' then Some CHR ''/''
      else if e = CHR ''b'' then Some CHR 0x08
      else if e = CHR ''f'' then Some CHR 0x0C
      else if e = CHR ''n'' then Some CHR 0x0A
      else if e = CHR ''r'' then Some CHR 0x0D
      else if e = CHR ''t'' then Some CHR 0x09
      else None)"

definition cons_char :: "char \<Rightarrow> string parsed \<Rightarrow> string parsed" where
  "cons_char c p = bind_parsed p (\<lambda>s rest. Some (Inr (c # s, rest)))"

fun scan_string :: "string \<Rightarrow> string parsed" where
  "scan_string [] = Some (Inl JSONDecodeError)"
| "scan_string (c # cs) =
     (if c = CHR ''\"'' then Some (Inr ([], cs))
      else if c = CHR 0x5C then
        (case cs of
           [] \<Rightarrow> Some (Inl JSONDecodeError)
         | e # cs1 \<Rightarrow>
             if e = CHR ''u'' then
               (case hex4 (take 4 cs1) of
                  None \<Rightarrow> Some (Inl JSONDecodeError)
                | Some n \<Rightarrow>
                    if n < 256 then cons_char (char_of n) (scan_string (drop 4 cs1)) else None)
             else
               (case unescape e of
                  None \<Rightarrow> Some (Inl JSONDecodeError)
                | Some ch \<Rightarrow> cons_char ch (scan_string cs1)))
      else if (of_char c :: nat) < 32 then Some (Inl JSONDecodeError)
      else cons_char c (scan_string cs))"

declare scan_string.simps(2) [simp del]

definition read_nat :: "string \<Rightarrow> nat" where
  "read_nat ds = foldl (\<lambda>a d. 10 * a + (of_char d - 48)) 0 ds"

definition scan_digits :: "string \<Rightarrow> (string \<times> string) option" where
  "scan_digits cs =
     (case cs of
        [] \<Rightarrow> None
      | c # cs1 \<Rightarrow>
          if c = CHR ''0'' then Some ([c], cs1)
          else if is_digit c then Some (takeWhile is_digit cs, dropWhile is_digit cs)
          else None)"

definition is_float_tail :: "string \<Rightarrow> bool" where
  "is_float_tail cs =
     (case cs of
        [] \<Rightarrow> False
      | c # cs1 \<Rightarrow>
          if c = CHR ''.'' then (case cs1 of [] \<Rightarrow> False | d # cs2 \<Rightarrow> is_digit d)
          else if c = CHR ''e'' \<or> c = CHR ''E'' then
            (case cs1 of
               [] \<Rightarrow> False
             | s # cs2 \<Rightarrow>
                 is_digit s \<or>
                 ((s = CHR ''+'' \<or> s = CHR ''-'') \<and> (case cs2 of [] \<Rightarrow> False | d # cs3 \<Rightarrow> is_digit d)))
          else False)"

definition scan_number :: "string \<Rightarrow> json parsed" where
  "scan_number cs =
     (let negative = (case cs of [] \<Rightarrow> False | c # cs1 \<Rightarrow> c = CHR ''-'');
          body = (if negative then tl cs else cs)
      in case scan_digits body of
           None \<Rightarrow>
             if take 3 cs = ''NaN'' \<or> take 8 cs = ''Infinity'' \<or> take 9 cs = ''-Infinity''
             then None
             else Some (Inl JSONDecodeError)
         | Some (ds, rest) \<Rightarrow>
             if is_float_tail rest then None
             else Some (Inr (JInt (if negative then - int (read_nat ds) else int (read_nat ds)),
                             rest)))"

definition dict_of :: "(string \<times> json) list \<Rightarrow> (string \<times> json) list" where
  "dict_of pairs = foldl (\<lambda>d kv. AList.update (fst kv) (snd kv) d) [] pairs"

fun parse_value :: "nat \<Rightarrow> string \<Rightarrow> json parsed"
  and parse_elems :: "nat \<Rightarrow> string \<Rightarrow> json list parsed"
  and parse_members :: "nat \<Rightarrow> string \<Rightarrow> (string \<times> json) list parsed" where
  "parse_value 0 cs = None"
| "parse_value (Suc n) cs =
     (case cs of
        [] \<Rightarrow> Some (Inl JSONDecodeError)
      | c # cs1 \<Rightarrow>
          if c = CHR ''\"'' then
            bind_parsed (scan_string cs1) (\<lambda>s rest. Some (Inr (JStr s, rest)))
          else if c = CHR ''{'' then
            (case skip_ws cs1 of
               [] \<Rightarrow> Some (Inl JSONDecodeError)
             | d # cs2 \<Rightarrow>
                 if d = CHR ''}'' then Some (Inr (JDict [], cs2))
                 else bind_parsed (parse_members n (d # cs2))
                        (\<lambda>pairs rest. Some (Inr (JDict (dict_of pairs), rest))))
          else if c = CHR ''['' then
            (case skip_ws cs1 of
               [] \<Rightarrow> Some (Inl JSONDecodeError)
             | d # cs2 \<Rightarrow>
                 if d = CHR '']'' then Some (Inr (JList [], cs2))
                 else bind_parsed (parse_elems n (d # cs2))
                        (\<lambda>values rest. Some (Inr (JList values, rest))))
          else if take 4 cs = ''null'' then Some (Inr (JNull, drop 4 cs))
          else if take 4 cs = ''true'' then Some (Inr (JBool True, drop 4 cs))
          else if take 5 cs = ''false'' then Some (Inr (JBool False, drop 5 cs))
          else scan_number cs)"
| "parse_elems 0 cs = None"
| "parse_elems (Suc n) cs =
     bind_parsed (parse_value n cs)
       (\<lambda>value rest.
          case skip_ws rest of
            [] \<Rightarrow> Some (Inl JSONDecodeError)
          | d # cs1 \<Rightarrow>
              if d = CHR '']'' then Some (Inr ([value], cs1))
              else if d = CHR '','' then
                bind_parsed (parse_elems n (skip_ws cs1))
                  (\<lambda>values rest1. Some (Inr (value # values, rest1)))
              else Some (Inl JSONDecodeError))"
| "parse_members 0 cs = None"
| "parse_members (Suc n) cs =
     (case cs of
        [] \<Rightarrow> Some (Inl JSONDecodeError)
      | q # cs1 \<Rightarrow>
          if q \<noteq> CHR ''\"'' then Some (Inl JSONDecodeError)
          else
            bind_parsed (scan_string cs1)
              (\<lambda>key rest.
                 case skip_ws rest of
                   [] \<Rightarrow> Some (Inl JSONDecodeError)
                 | colon # cs2 \<Rightarrow>
                     if colon \<noteq> CHR '':'' then Some (Inl JSONDecodeError)
                     else
                       bind_parsed (parse_value n (skip_ws cs2))
                         (\<lambda>value rest1.
                            case skip_ws rest1 of
                              [] \<Rightarrow> Some (Inl JSONDecodeError)
                            | d # cs3 \<Rightarrow>
                                if d = CHR ''}'' then Some (Inr ([(key, value)], cs3))
                                else if d = CHR '','' then
                                  bind_parsed (parse_members n (skip_ws cs3))
                                    (\<lambda>pairs rest2. Some (Inr ((key, value) # pairs, rest2)))
                                else Some (Inl JSONDecodeError))))"

declare parse_value.simps(2) [simp del] parse_elems.simps(2) [simp del]
  parse_members.simps(2) [simp del]

definition loads :: "bytes \<Rightarrow> (error + json) option" where
  "loads data =
     (if list_ex (\<lambda>b. 128 \<le> (of_char b :: nat)) data then None
      else
        (case parse_value (Suc (length data)) (skip_ws data) of
           None \<Rightarrow> None
         | Some (Inl e) \<Rightarrow> Some (Inl e)
         | Some (Inr (value, rest)) \<Rightarrow>
             if skip_ws rest = [] then Some (Inr value) else Some (Inl JSONDecodeError)))"

subsection \<open>The decoder on what \<open>json.dumps\<close> writes\<close>

lemma bind_parsed_simps [simp]:
  "bind_parsed None f = None"
  "bind_parsed (Some (Inl e)) f = Some (Inl e)"
  "bind_parsed (Some (Inr (x, rest))) f = f x rest"
  by (simp_all add: bind_parsed_def)

lemma cons_char_simps [simp]:
  "cons_char c (Some (Inr (s, rest))) = Some (Inr (c # s, rest))"
  by (simp add: cons_char_def)

lemma less_16_cases:
  "(j::nat) < 16 \<Longrightarrow>
   j = 0 \<or> j = 1 \<or> j = 2 \<or> j = 3 \<or> j = 4 \<or> j = 5 \<or> j = 6 \<or> j = 7 \<or> j = 8 \<or> j = 9 \<or>
   j = 10 \<or> j = 11 \<or> j = 12 \<or> j = 13 \<or> j = 14 \<or> j = 15"
  by arith

lemma hex_value_hex_digit: "hex_value (hex_digit k) = Some (k mod 16)"
proof -
  have "k mod 16 < 16" by simp
  from less_16_cases [OF this] show ?thesis
    by (elim disjE) (simp_all add: hex_digit_def hex_value_def)
qed

lemma hex4_escape:
  assumes "n < 256"
  shows "hex4 [CHR ''0'', CHR ''0'', hex_digit (n div 16), hex_digit n] = Some n"
proof -
  have d: "(n div 16) mod 16 = n div 16" using assms by simp
  have "hex_value CHR ''0'' = Some 0" by (simp add: hex_value_def)
  then show ?thesis
    by (simp add: hex4_def hex_value_hex_digit d)
qed

lemma scan_string_escape_char:
  "scan_string (escape_char c @ tail) = cons_char c (scan_string tail)"
proof -
  have n: "(of_char c :: nat) < 256" by simp
  note h = hex4_escape [OF n]
  show ?thesis
    unfolding escape_char_def
    by (simp add: scan_string.simps(2) unescape_def h)
qed

lemma scan_string_escaped:
  "scan_string (concat (map escape_char s) @ CHR ''\"'' # rest) = Some (Inr (s, rest))"
  by (induction s) (simp_all add: scan_string.simps(2) scan_string_escape_char)

lemma scan_string_dumps_str:
  "scan_string (tl (dumps_str s) @ rest) = Some (Inr (s, rest))"
  using scan_string_escaped [of s rest] by (simp add: dumps_str_def)

lemma of_char_digit: "(d::nat) < 10 \<Longrightarrow> (of_char (char_of (48 + d)) :: nat) = 48 + d"
  by simp

lemma is_digit_char_of: "(d::nat) < 10 \<Longrightarrow> is_digit (char_of (48 + d))"
  by (simp add: is_digit_def)

lemma show_nat_digits: "list_all is_digit (show_nat n)"
proof (induction n rule: show_nat.induct)
  case (1 n)
  show ?case
  proof (cases "n < 10")
    case True
    then show ?thesis by (subst show_nat.simps) (simp add: is_digit_char_of)
  next
    case False
    have "n mod 10 < 10" by simp
    then show ?thesis using False 1
      by (subst show_nat.simps) (simp add: is_digit_char_of)
  qed
qed

lemma read_nat_snoc: "read_nat (ds @ [d]) = 10 * read_nat ds + (of_char d - 48)"
  by (simp add: read_nat_def)

lemma read_nat_show_nat: "read_nat (show_nat n) = n"
proof (induction n rule: show_nat.induct)
  case (1 n)
  show ?case
  proof (cases "n < 10")
    case True
    then show ?thesis by (subst show_nat.simps) (simp add: read_nat_def)
  next
    case False
    have m: "n mod 10 < 10" by simp
    have "read_nat (show_nat (n div 10) @ [char_of (48 + n mod 10)]) = n"
      unfolding read_nat_snoc using 1 False by (simp add: of_char_digit [OF m])
    then show ?thesis using False by (subst show_nat.simps) simp
  qed
qed

lemma show_nat_0: "show_nat 0 = ''0''"
  by (subst show_nat.simps) (simp add: char_of_def bit_simps)

lemma show_nat_head:
  "0 < n \<Longrightarrow> \<exists>c cs. show_nat n = c # cs \<and> is_digit c \<and> c \<noteq> CHR ''0''"
proof (induction n rule: show_nat.induct)
  case (1 n)
  show ?case
  proof (cases "n < 10")
    case True
    have "char_of (48 + n) \<noteq> CHR ''0''"
    proof
      assume "char_of (48 + n) = CHR ''0''"
      then have "(of_char (char_of (48 + n)) :: nat) = of_char CHR ''0''" by simp
      then show False using True 1(2) by simp
    qed
    then show ?thesis using True by (subst show_nat.simps) (simp add: is_digit_char_of)
  next
    case False
    then have "0 < n div 10" by simp
    from 1(1) [OF False this] obtain c cs where
      "show_nat (n div 10) = c # cs" "is_digit c" "c \<noteq> CHR ''0''" by blast
    then show ?thesis using False by (subst show_nat.simps) simp
  qed
qed

text \<open>What can follow a value in a text of \<open>json.dumps\<close>: the end, a comma or a closing
  bracket.\<close>

definition follow :: "string \<Rightarrow> bool" where
  "follow rest =
     (case rest of [] \<Rightarrow> True | c # cs \<Rightarrow> c = CHR '','' \<or> c = CHR '']'' \<or> c = CHR ''}'')"

lemma follow_skip_ws: "follow rest \<Longrightarrow> skip_ws rest = rest"
  by (cases rest) (auto simp: follow_def skip_ws_def is_ws_def)

lemma follow_not_float: "follow rest \<Longrightarrow> \<not> is_float_tail rest"
  by (cases rest) (auto simp: follow_def is_float_tail_def)

lemma follow_not_digit: "follow rest \<Longrightarrow> takeWhile is_digit rest = [] \<and> dropWhile is_digit rest = rest"
  by (cases rest) (auto simp: follow_def is_digit_def)

lemma scan_digits_show_nat:
  assumes "follow rest"
  shows "scan_digits (show_nat n @ rest) = Some (show_nat n, rest)"
proof (cases "n = 0")
  case True
  then show ?thesis by (simp add: show_nat_0 scan_digits_def)
next
  case False
  then obtain c cs where s: "show_nat n = c # cs" and d: "is_digit c" and z: "c \<noteq> CHR ''0''"
    using show_nat_head [of n] by auto
  have a: "\<forall>x\<in>set (show_nat n). is_digit x"
    using show_nat_digits [of n] by (simp add: list_all_iff)
  have t: "takeWhile is_digit (show_nat n @ rest) = show_nat n"
    using a follow_not_digit [OF assms] by (simp add: takeWhile_append2)
  have dr: "dropWhile is_digit (show_nat n @ rest) = rest"
    using a follow_not_digit [OF assms] by (simp add: dropWhile_append2)
  have "scan_digits (c # cs @ rest) =
          Some (takeWhile is_digit (c # cs @ rest), dropWhile is_digit (c # cs @ rest))"
    using d z by (simp add: scan_digits_def)
  then show ?thesis using t dr by (simp add: s)
qed

lemma scan_number_show_int:
  assumes "follow rest"
  shows "scan_number (show_int i @ rest) = Some (Inr (JInt i, rest))"
proof (cases "i < 0")
  case True
  have "scan_number (CHR ''-'' # show_nat (nat (- i)) @ rest) = Some (Inr (JInt i, rest))"
    using True
    by (simp add: scan_number_def scan_digits_show_nat [OF assms] follow_not_float [OF assms]
          read_nat_show_nat)
  then show ?thesis using True by (simp add: show_int_def)
next
  case False
  obtain c cs where s: "show_nat (nat i) = c # cs" and d: "is_digit c"
    using show_nat_head [of "nat i"] show_nat_0 by (cases "nat i = 0") (auto simp: is_digit_def)
  have m: "c \<noteq> CHR ''-''" using d by (auto simp: is_digit_def)
  have neg: "(case show_nat (nat i) @ rest of [] \<Rightarrow> False | c # cs1 \<Rightarrow> c = CHR ''-'') = False"
    using m by (simp add: s)
  have "scan_number (show_nat (nat i) @ rest) = Some (Inr (JInt i, rest))"
    unfolding scan_number_def neg using False
    by (simp add: scan_digits_show_nat [OF assms] follow_not_float [OF assms] read_nat_show_nat)
  then show ?thesis using False by (simp add: show_int_def)
qed

text \<open>A value is well formed when the keys of each of its dicts are distinct, as those of a
  Python dict are.\<close>

fun wf_json :: "json \<Rightarrow> bool" where
  "wf_json (JList xs) = list_all wf_json xs"
| "wf_json (JDict kvs) = (distinct (map fst kvs) \<and> list_all (\<lambda>kv. wf_json (snd kv)) kvs)"
| "wf_json v = True"

definition value_start :: "char \<Rightarrow> bool" where
  "value_start c =
     (c = CHR ''n'' \<or> c = CHR ''t'' \<or> c = CHR ''f'' \<or> c = CHR ''-'' \<or> is_digit c \<or>
      c = CHR ''\"'' \<or> c = CHR ''['' \<or> c = CHR ''{'')"

lemma show_int_head: "\<exists>c cs. show_int i = c # cs \<and> (c = CHR ''-'' \<or> is_digit c)"
proof (cases "i < 0")
  case True
  then show ?thesis by (simp add: show_int_def)
next
  case False
  obtain c cs where "show_nat (nat i) = c # cs" and "is_digit c"
    using show_nat_head [of "nat i"] show_nat_0 by (cases "nat i = 0") (auto simp: is_digit_def)
  then show ?thesis using False by (simp add: show_int_def)
qed

lemma json_dumps_head: "\<exists>c cs. json_dumps m = c # cs \<and> value_start c"
proof (cases m)
  case (JInt i)
  then show ?thesis using show_int_head [of i] by (auto simp: value_start_def)
qed (auto simp: value_start_def dumps_str_def)

lemma value_start_skip_ws: "value_start c \<Longrightarrow> skip_ws (c # cs) = c # cs"
  by (auto simp: value_start_def skip_ws_def is_ws_def is_digit_def)

lemma skip_ws_json_dumps: "skip_ws (json_dumps m @ rest) = json_dumps m @ rest"
proof -
  obtain c cs where "json_dumps m = c # cs" and "value_start c"
    using json_dumps_head [of m] by blast
  then show ?thesis using value_start_skip_ws [of c "cs @ rest"] by simp
qed

lemma skip_ws_space: "skip_ws (CHR '' '' # cs) = skip_ws cs"
  by (simp add: skip_ws_def is_ws_def)

lemma skip_ws_punct:
  "skip_ws (CHR '','' # cs) = CHR '','' # cs"
  "skip_ws (CHR '']'' # cs) = CHR '']'' # cs"
  "skip_ws (CHR ''}'' # cs) = CHR ''}'' # cs"
  "skip_ws (CHR '':'' # cs) = CHR '':'' # cs"
  "skip_ws (CHR ''\"'' # cs) = CHR ''\"'' # cs"
  by (simp_all add: skip_ws_def is_ws_def)

lemma follow_punct [simp]:
  "follow []" "follow (CHR '','' # cs)" "follow (CHR '']'' # cs)" "follow (CHR ''}'' # cs)"
  by (simp_all add: follow_def)

text \<open>The elements of a list: the text of each is read back by \<open>parse_value\<close> with fuel above
  its length.\<close>

definition reads_back :: "json \<Rightarrow> bool" where
  "reads_back x =
     (\<forall>n rest. follow rest \<longrightarrow> length (json_dumps x) < n \<longrightarrow>
        parse_value n (json_dumps x @ rest) = Some (Inr (x, rest)))"

lemma parse_elems_join:
  assumes "\<forall>x\<in>set xs. reads_back x" and "xs \<noteq> []"
    and "length (join '', '' (map json_dumps xs)) + 1 < n"
  shows "parse_elems n (join '', '' (map json_dumps xs) @ CHR '']'' # rest) = Some (Inr (xs, rest))"
  using assms
proof (induction xs arbitrary: n)
  case Nil
  then show ?case by simp
next
  case (Cons x xs)
  from Cons.prems(3) obtain k where n: "n = Suc k" by (cases n) auto
  have rb: "reads_back x" using Cons.prems(1) by simp
  show ?case
  proof (cases xs)
    case Nil
    have l: "length (json_dumps x) < k" using Cons.prems(3) n Nil by simp
    have v: "parse_value k (json_dumps x @ CHR '']'' # rest) = Some (Inr (x, CHR '']'' # rest))"
      using rb l by (simp add: reads_back_def)
    show ?thesis
      unfolding n Nil by (simp add: parse_elems.simps(2) v skip_ws_punct)
  next
    case (Cons y ys)
    let ?tail = "join '', '' (map json_dumps (y # ys)) @ CHR '']'' # rest"
    have l: "length (json_dumps x) < k"
      and l2: "length (join '', '' (map json_dumps (y # ys))) + 1 < k"
      using Cons.prems(3) n Cons by simp_all
    have v: "parse_value k (json_dumps x @ CHR '','' # CHR '' '' # ?tail) =
               Some (Inr (x, CHR '','' # CHR '' '' # ?tail))"
      using rb l by (simp add: reads_back_def)
    have ih: "parse_elems k ?tail = Some (Inr (y # ys, rest))"
      using Cons.IH [of k] Cons.prems(1) l2 Cons by simp
    have "\<exists>t. ?tail = json_dumps y @ t" by (cases ys) simp_all
    then obtain t where t: "?tail = json_dumps y @ t" by blast
    have sk: "skip_ws ?tail = ?tail" unfolding t by (rule skip_ws_json_dumps)
    have e: "join '', '' (map json_dumps (x # xs)) @ CHR '']'' # rest =
               json_dumps x @ CHR '','' # CHR '' '' # ?tail"
      using Cons by simp
    show ?thesis
      unfolding n e
      by (simp only: parse_elems.simps(2) v bind_parsed_simps skip_ws_punct skip_ws_space sk ih
            list.case char.inject)
         (simp add: Cons)
  qed
qed

lemma parse_members_join:
  assumes "\<forall>kv\<in>set kvs. reads_back (snd kv)" and "kvs \<noteq> []"
    and "length (join '', '' (map (\<lambda>kv. dumps_str (fst kv) @ '': '' @ json_dumps (snd kv)) kvs)) + 1 < n"
  shows "parse_members n
           (join '', '' (map (\<lambda>kv. dumps_str (fst kv) @ '': '' @ json_dumps (snd kv)) kvs) @
            CHR ''}'' # rest) =
         Some (Inr (kvs, rest))"
  using assms
proof (induction kvs arbitrary: n)
  case Nil
  then show ?case by simp
next
  case (Cons kv kvs)
  let ?member = "\<lambda>kv. dumps_str (fst kv) @ '': '' @ json_dumps (snd kv)"
  obtain key x where kv: "kv = (key, x)" by (cases kv)
  from Cons.prems(3) obtain k where n: "n = Suc k" by (cases n) auto
  have rb: "reads_back x" using Cons.prems(1) kv by simp
  have key: "\<And>t. scan_string (concat (map escape_char key) @ CHR ''\"'' # t) = Some (Inr (key, t))"
    by (rule scan_string_escaped)
  show ?case
  proof (cases kvs)
    case Nil
    have l: "length (json_dumps x) < k" using Cons.prems(3) n Nil kv by simp
    have v: "parse_value k (json_dumps x @ CHR ''}'' # rest) = Some (Inr (x, CHR ''}'' # rest))"
      using rb l by (simp add: reads_back_def)
    show ?thesis
      unfolding n Nil kv
      by (simp add: parse_members.simps(2) dumps_str_def key skip_ws_punct skip_ws_space
            skip_ws_json_dumps v)
  next
    case (Cons kv2 kvs2)
    let ?tail = "join '', '' (map ?member (kv2 # kvs2)) @ CHR ''}'' # rest"
    have l: "length (json_dumps x) < k"
      and l2: "length (join '', '' (map ?member (kv2 # kvs2))) + 1 < k"
      using Cons.prems(3) n Cons kv by simp_all
    have v: "parse_value k (json_dumps x @ CHR '','' # CHR '' '' # ?tail) =
               Some (Inr (x, CHR '','' # CHR '' '' # ?tail))"
      using rb l by (simp add: reads_back_def)
    have ih: "parse_members k ?tail = Some (Inr (kv2 # kvs2, rest))"
      using Cons.IH [of k] Cons.prems(1) l2 Cons by simp
    have "\<exists>t. ?tail = CHR ''\"'' # t" by (cases kvs2) (simp_all add: dumps_str_def)
    then obtain t where t: "?tail = CHR ''\"'' # t" by blast
    have sk: "skip_ws ?tail = ?tail" unfolding t by (rule skip_ws_punct)
    have e: "join '', '' (map ?member (kv # kvs)) @ CHR ''}'' # rest =
               CHR ''\"'' # concat (map escape_char key) @
               CHR ''\"'' # CHR '':'' # CHR '' '' # json_dumps x @ CHR '','' # CHR '' '' # ?tail"
      using Cons kv by (simp add: dumps_str_def)
    show ?thesis
      unfolding n e
      by (simp only: parse_members.simps(2) key v bind_parsed_simps skip_ws_punct skip_ws_space
            skip_ws_json_dumps sk ih list.case char.inject)
         (simp add: Cons kv)
  qed
qed

lemma update_fresh: "k \<notin> set (map fst d) \<Longrightarrow> AList.update k v d = d @ [(k, v)]"
  by (induction d) auto

lemma foldl_update_distinct:
  "distinct (map fst (d @ kvs)) \<Longrightarrow>
   foldl (\<lambda>d kv. AList.update (fst kv) (snd kv) d) d kvs = d @ kvs"
proof (induction kvs arbitrary: d)
  case Nil
  show ?case by simp
next
  case (Cons kv kvs)
  have f: "fst kv \<notin> set (map fst d)" using Cons.prems by auto
  have u: "AList.update (fst kv) (snd kv) d = d @ [kv]"
    using update_fresh [OF f, of "snd kv"] by simp
  have "distinct (map fst ((d @ [kv]) @ kvs))" using Cons.prems by simp
  from Cons.IH [OF this] show ?case by (simp add: u)
qed

lemma dict_of_distinct: "distinct (map fst kvs) \<Longrightarrow> dict_of kvs = kvs"
  using foldl_update_distinct [of "[]" kvs] by (simp add: dict_of_def)

lemma parse_value_number:
  assumes "c = CHR ''-'' \<or> is_digit c"
  shows "parse_value (Suc k) (c # cs) = scan_number (c # cs)"
proof -
  have "c \<noteq> CHR ''\"''" "c \<noteq> CHR ''{''" "c \<noteq> CHR ''[''" "c \<noteq> CHR ''n''" "c \<noteq> CHR ''t''"
    "c \<noteq> CHR ''f''"
    using assms by (auto simp: is_digit_def)
  then show ?thesis
    by (cases cs) (auto simp: parse_value.simps(2))
qed

lemma reads_back_all: "wf_json m \<Longrightarrow> reads_back m"
proof (induction m)
  case JNull
  show ?case
    unfolding reads_back_def
  proof (intro allI impI)
    fix n rest assume "length (json_dumps JNull) < n"
    then obtain k where "n = Suc k" by (cases n) auto
    then show "parse_value n (json_dumps JNull @ rest) = Some (Inr (JNull, rest))"
      by (simp add: parse_value.simps(2))
  qed
next
  case (JBool b)
  show ?case
    unfolding reads_back_def
  proof (intro allI impI)
    fix n rest assume "length (json_dumps (JBool b)) < n"
    then obtain k where "n = Suc k" by (cases n) auto
    then show "parse_value n (json_dumps (JBool b) @ rest) = Some (Inr (JBool b, rest))"
      by (simp add: parse_value.simps(2))
  qed
next
  case (JInt i)
  show ?case
    unfolding reads_back_def
  proof (intro allI impI)
    fix n rest assume f: "follow rest" and "length (json_dumps (JInt i)) < n"
    then obtain k where n: "n = Suc k" by (cases n) auto
    obtain c cs where s: "show_int i = c # cs" and c: "c = CHR ''-'' \<or> is_digit c"
      using show_int_head [of i] by blast
    have "parse_value (Suc k) (c # cs @ rest) = scan_number (c # cs @ rest)"
      by (rule parse_value_number [OF c])
    then show "parse_value n (json_dumps (JInt i) @ rest) = Some (Inr (JInt i, rest))"
      using scan_number_show_int [OF f, of i] by (simp add: n s)
  qed
next
  case (JStr s)
  show ?case
    unfolding reads_back_def
  proof (intro allI impI)
    fix n rest assume "length (json_dumps (JStr s)) < n"
    then obtain k where "n = Suc k" by (cases n) auto
    then show "parse_value n (json_dumps (JStr s) @ rest) = Some (Inr (JStr s, rest))"
      by (simp add: parse_value.simps(2) dumps_str_def scan_string_escaped)
  qed
next
  case (JList xs)
  have rb: "\<forall>x\<in>set xs. reads_back x"
    using JList by (auto simp: list_all_iff)
  show ?case
    unfolding reads_back_def
  proof (intro allI impI)
    fix n rest assume l: "length (json_dumps (JList xs)) < n"
    then obtain k where n: "n = Suc k" by (cases n) auto
    show "parse_value n (json_dumps (JList xs) @ rest) = Some (Inr (JList xs, rest))"
    proof (cases xs)
      case Nil
      then show ?thesis by (simp add: n parse_value.simps(2) skip_ws_punct)
    next
      case (Cons y ys)
      let ?text = "join '', '' (map json_dumps xs) @ CHR '']'' # rest"
      have l2: "length (join '', '' (map json_dumps xs)) + 1 < k" using l n by simp
      have ne: "xs \<noteq> []" using Cons by simp
      note e = parse_elems_join [OF rb ne l2, of rest]
      obtain c cs where h: "json_dumps y = c # cs" and vs: "value_start c"
        using json_dumps_head [of y] by blast
      have "\<exists>t. ?text = c # t" using Cons h by (cases ys) simp_all
      then obtain t where t: "?text = c # t" by blast
      have sk: "skip_ws (c # t) = c # t" by (rule value_start_skip_ws [OF vs])
      have c: "c \<noteq> CHR '']''" using vs by (auto simp: value_start_def is_digit_def)
      have "parse_value (Suc k) (CHR ''['' # c # t) = Some (Inr (JList xs, rest))"
        using e [unfolded t] c by (simp add: parse_value.simps(2) sk)
      then have "parse_value (Suc k) (CHR ''['' # ?text) = Some (Inr (JList xs, rest))"
        by (simp only: t)
      then show ?thesis by (simp add: n)
    qed
  qed
next
  case (JDict kvs)
  have rb: "\<forall>kv\<in>set kvs. reads_back (snd kv)"
  proof
    fix kv assume m: "kv \<in> set kvs"
    then have w: "wf_json (snd kv)" using JDict.prems by (simp add: list_all_iff)
    have "snd kv \<in> Basic_BNFs.snds kv" by (cases kv) simp
    from JDict.IH [OF m this w] show "reads_back (snd kv)" .
  qed
  have d: "dict_of kvs = kvs" using JDict.prems by (simp add: dict_of_distinct)
  let ?member = "\<lambda>kv. dumps_str (fst kv) @ '': '' @ json_dumps (snd kv)"
  show ?case
    unfolding reads_back_def
  proof (intro allI impI)
    fix n rest assume l: "length (json_dumps (JDict kvs)) < n"
    then obtain k where n: "n = Suc k" by (cases n) auto
    show "parse_value n (json_dumps (JDict kvs) @ rest) = Some (Inr (JDict kvs, rest))"
    proof (cases kvs)
      case Nil
      then show ?thesis by (simp add: n parse_value.simps(2) skip_ws_punct)
    next
      case (Cons kv kvs2)
      let ?text = "join '', '' (map ?member kvs) @ CHR ''}'' # rest"
      have l2: "length (join '', '' (map ?member kvs)) + 1 < k" using l n by simp
      have ne: "kvs \<noteq> []" using Cons by simp
      note e = parse_members_join [OF rb ne l2, of rest]
      have "\<exists>t. ?text = CHR ''\"'' # t" using Cons by (cases kvs2) (simp_all add: dumps_str_def)
      then obtain t where t: "?text = CHR ''\"'' # t" by blast
      have "parse_value (Suc k) (CHR ''{'' # CHR ''\"'' # t) = Some (Inr (JDict kvs, rest))"
        using e [unfolded t] d by (simp add: parse_value.simps(2) skip_ws_punct)
      then have "parse_value (Suc k) (CHR ''{'' # ?text) = Some (Inr (JDict kvs, rest))"
        by (simp only: t)
      then show ?thesis by (simp add: n)
    qed
  qed
qed

subsection \<open>The text of \<open>json.dumps\<close> is ASCII\<close>

definition ascii :: "string \<Rightarrow> bool" where
  "ascii cs = list_all (\<lambda>b. (of_char b :: nat) < 128) cs"

lemma ascii_simps [simp]:
  "ascii []" "ascii (c # cs) = ((of_char c :: nat) < 128 \<and> ascii cs)"
  "ascii (xs @ ys) = (ascii xs \<and> ascii ys)"
  by (simp_all add: ascii_def)

lemma ascii_hex_digit: "(of_char (hex_digit k) :: nat) < 128"
proof -
  have "k mod 16 < 16" by simp
  from less_16_cases [OF this] show ?thesis
    by (elim disjE) (simp_all add: hex_digit_def)
qed

lemma ascii_escape_char: "ascii (escape_char c)"
  by (simp add: escape_char_def ascii_hex_digit)

lemma ascii_dumps_str: "ascii (dumps_str s)"
  by (induction s) (simp_all add: dumps_str_def ascii_escape_char)

lemma ascii_show_nat: "ascii (show_nat n)"
  using show_nat_digits [of n] by (auto simp: ascii_def list_all_iff is_digit_def)

lemma ascii_show_int: "ascii (show_int i)"
  by (simp add: show_int_def ascii_show_nat)

lemma ascii_join: "ascii sep \<Longrightarrow> \<forall>x\<in>set xs. ascii x \<Longrightarrow> ascii (join sep xs)"
  by (induction sep xs rule: join.induct) simp_all

lemma ascii_json_dumps: "ascii (json_dumps m)"
proof (induction m)
  case (JList xs)
  have "ascii (join '', '' (map json_dumps xs))"
    by (rule ascii_join) (use JList in auto)
  then show ?case by simp
next
  case (JDict kvs)
  have "\<forall>kv\<in>set kvs. ascii (json_dumps (snd kv))"
  proof
    fix kv assume m: "kv \<in> set kvs"
    have "snd kv \<in> Basic_BNFs.snds kv" by (cases kv) simp
    from JDict [OF m this] show "ascii (json_dumps (snd kv))" .
  qed
  then have "ascii (join '', '' (map (\<lambda>kv. dumps_str (fst kv) @ '': '' @ json_dumps (snd kv)) kvs))"
    by (intro ascii_join) (auto simp: ascii_dumps_str)
  then show ?case by simp
qed (simp_all add: ascii_show_int ascii_dumps_str)

text \<open>The decoder inverts the encoder on every well-formed value.\<close>

lemma loads_json_dumps:
  assumes "wf_json m"
  shows "loads (json_dumps m) = Some (Inr m)"
proof -
  have a: "\<not> list_ex (\<lambda>b. 128 \<le> (of_char b :: nat)) (json_dumps m)"
    using ascii_json_dumps [of m] by (auto simp: ascii_def list_all_iff list_ex_iff)
  have "follow []" by simp
  moreover have "length (json_dumps m) < Suc (length (json_dumps m))" by simp
  ultimately have "parse_value (Suc (length (json_dumps m))) (json_dumps m @ []) =
                     Some (Inr (m, []))"
    using reads_back_all [OF assms] unfolding reads_back_def by blast
  then have p: "parse_value (Suc (length (json_dumps m))) (skip_ws (json_dumps m)) =
                  Some (Inr (m, []))"
    using skip_ws_json_dumps [of m "[]"] by simp
  have e: "skip_ws [] = []" by (simp add: skip_ws_def)
  show ?thesis
    unfolding loads_def using a by (simp add: p e del: json_dumps.simps)
qed

section \<open>The round trip of a message\<close>

text \<open>A library whose \<open>json.loads\<close> is the decoder above, where that gives an outcome.\<close>

definition env_loads :: env where
  "env_loads =
     \<lparr>json_loads = (\<lambda>data. case loads data of Some r \<Rightarrow> r | None \<Rightarrow> Inl JSONDecodeError),
      sha256_hexdigest = (\<lambda>data. []),
      json_dump_db = (\<lambda>catalog. concat (map fst catalog))\<rparr>"

text \<open>
  C1, as the code has it.  Let \<open>m\<close> be a message (any JSON value whose dicts have distinct
  keys) with a payload \<open>json.dumps(m)\<close> of at most 1,048,576 bytes, and let \<open>json.loads\<close> be the
  decoder above.  A sender whose two \<open>send\<close> calls transmit all of their data writes the frame
  of \<open>m\<close>: the 4-byte big-endian length and the payload.  A receiver whose stream starts with
  the bytes transmitted, in whatever segments, gets \<open>m\<close> back from \<open>_receive_message\<close> and has
  read exactly the frame: the prefix gives the length back, and the decoder reconstructs \<open>m\<close>
  from the payload.
\<close>

theorem message_round_trip:
  assumes "wf_json m"
    and "length (json_dumps m) \<le> 1048576"
    and "tx_plan a = []" and "tx a = []"
    and "\<forall>data r. loads data = Some r \<longrightarrow> json_loads ev data = r"
    and "rx_starts_with (rx b) (tx (snd (snd (send_message st a m))))"
  shows "fst (send_message st a m) = True \<and>
         tx (snd (snd (send_message st a m))) = frame (json_dumps m) \<and>
         length (frame (json_dumps m)) = 4 + length (json_dumps m) \<and>
         from_bytes (take 4 (frame (json_dumps m))) = length (json_dumps m) \<and>
         loads (json_dumps m) = Some (Inr m) \<and>
         receive_message ev st' b =
           (m, st', b\<lparr>rx := rx_drop (4 + length (json_dumps m)) (rx b)\<rparr>)"
proof -
  from assms(2) have lt: "length (json_dumps m) < 2 ^ 32" by simp
  note s = send_message_ok [OF assms(3) lt, of st]
  from s assms(4) have t: "tx (snd (snd (send_message st a m))) = frame (json_dumps m)"
    by simp
  from assms(6) have sw: "rx_starts_with (rx b) (frame (json_dumps m))"
    by (simp only: t)
  note lf = length_frame [OF assms(2)]
  from to_bytes4_small [OF assms(2)] obtain prefix where
    p: "to_bytes4 (length (json_dumps m)) = Inr prefix" and l4: "length prefix = 4" and
    fb: "from_bytes prefix = length (json_dumps m)"
    by blast
  have tk: "take 4 (frame (json_dumps m)) = prefix"
    by (simp add: frame_def p l4)
  note ld = loads_json_dumps [OF assms(1)]
  from assms(5) ld have jl: "json_loads ev (json_dumps m) = Inr m" by blast
  have "receive_message ev st' b =
          (m, st', b\<lparr>rx := rx_drop (4 + length (json_dumps m)) (rx b)\<rparr>)"
    by (simp add: receive_message_frame [OF sw json_dumps_nonempty assms(2)] jl lf)
  with s t lf tk fb ld show ?thesis by simp
qed

theorem message_round_trip_witness:
  "wf_json ping_message \<and>
   length (json_dumps ping_message) \<le> 1048576 \<and>
   tx_plan (socket0 []) = [] \<and> tx (socket0 []) = [] \<and>
   rx_starts_with
     (rx (socket0 [Data (tx (snd (snd (send_message server0 (socket0 []) ping_message))))]))
     (tx (snd (snd (send_message server0 (socket0 []) ping_message)))) \<and>
   loads (json_dumps ping_message) = Some (Inr ping_message) \<and>
   fst (receive_message env_loads server0
          (socket0 [Data (tx (snd (snd (send_message server0 (socket0 []) ping_message))))])) =
     ping_message"
proof -
  let ?b = "socket0 [Data (tx (snd (snd (send_message server0 (socket0 []) ping_message))))]"
  have h1: "wf_json ping_message" by (simp add: ping_message_def)
  have h2: "length (json_dumps ping_message) \<le> 1048576"
    by (simp add: ping_message_def dumps_str_def escape_char_def)
  have h3: "tx_plan (socket0 []) = []" and h4: "tx (socket0 []) = []"
    by (simp_all add: socket0_def)
  have h5: "\<forall>data r. loads data = Some r \<longrightarrow> json_loads env_loads data = r"
    by (simp add: env_loads_def)
  have h6: "rx_starts_with (rx ?b) (tx (snd (snd (send_message server0 (socket0 []) ping_message))))"
    by (simp add: socket0_def rx_starts_with_single)
  from message_round_trip [OF h1 h2 h3 h4 h5 h6, of server0]
  have l: "loads (json_dumps ping_message) = Some (Inr ping_message)"
    and r: "receive_message env_loads server0 ?b =
             (ping_message, server0,
              ?b\<lparr>rx := rx_drop (4 + length (json_dumps ping_message)) (rx ?b)\<rparr>)"
    by blast+
  have "fst (receive_message env_loads server0 ?b) = ping_message"
    by (simp only: r fst_conv)
  with h1 h2 h3 h4 h6 l show ?thesis by blast
qed

text \<open>
  Two runs in which the receiver does not get the message.

  A \<open>file_request\<close> for a name of 1,048,576 letters is a valid message and is sent
  (\<open>_send_message\<close> returns \<open>True\<close>), its payload being 1,048,616 bytes long.  The receiver
  reads the prefix, finds the length over the limit and returns \<open>None\<close>, although the decoder
  gives the message back from the payload.

  A \<open>ping\<close> is sent on a socket whose second \<open>send\<close> call transmits five of the sixteen bytes
  of the payload.  \<open>_send_message\<close> does not look at the number that \<open>sock.send\<close> returns, and
  returns \<open>True\<close>.  The receiver reads the prefix, waits for sixteen bytes, and returns \<open>None\<close>
  when the stream ends after five.
\<close>

definition long_file_request :: json where
  "long_file_request =
     JDict [(''type'', JStr ''file_request''), (''filename'', JStr (replicate 1048576 CHR ''a''))]"

lemma length_dumps_file_request:
  "length (json_dumps (JDict [(''type'', JStr ''file_request''),
                              (''filename'', JStr (replicate n CHR ''a''))])) = n + 40"
proof -
  have esc: "concat (map escape_char (replicate n CHR ''a'')) = replicate n CHR ''a''"
    by (induction n) (simp_all add: escape_char_def)
  show ?thesis
    by (simp add: dumps_str_def esc) (simp add: escape_char_def)
qed

lemma length_long_file_request: "length (json_dumps long_file_request) = 1048576 + 40"
  unfolding long_file_request_def by (rule length_dumps_file_request)

definition partial_send_socket :: socket where
  "partial_send_socket = \<lparr>rx = [], tx = [], tx_plan = [Accept 4, Accept 5], closed = False\<rparr>"

lemma json_dumps_ping: "json_dumps ping_message = ''{\"type\": \"ping\"}''"
  by (simp add: ping_message_def dumps_str_def escape_char_def)

lemma send_message_partial:
  "send_message server0 partial_send_socket ping_message =
     (True, server0,
      \<lparr>rx = [], tx = [CHR 0x00, CHR 0x00, CHR 0x00, CHR 0x10] @ ''{\"typ'', tx_plan = [],
       closed = False\<rparr>)"
proof -
  have p: "to_bytes4 16 = Inr [CHR 0x00, CHR 0x00, CHR 0x00, CHR 0x10]"
    by (simp add: to_bytes4_def char_of_def bit_simps)
  have l: "length ''{\"type\": \"ping\"}'' = 16" by simp
  show ?thesis
    unfolding send_message_def Let_def json_dumps_ping l p
    by (simp add: send_def partial_send_socket_def)
qed

lemma receive_message_partial:
  "fst (receive_message ev server0
          (socket0 [Data ([CHR 0x00, CHR 0x00, CHR 0x00, CHR 0x10] @ ''{\"typ'')])) = JNull"
  by (simp add: receive_message_def receive_exact.simps recv_def socket0_def from_bytes_def)

theorem message_not_received:
  "wf_json long_file_request \<and>
   fst (send_message server0 (socket0 []) long_file_request) = True \<and>
   loads (json_dumps long_file_request) = Some (Inr long_file_request) \<and>
   fst (receive_message env_loads server0
          (socket0 [Data (tx (snd (snd (send_message server0 (socket0 []) long_file_request))))])) =
     JNull \<and>
   long_file_request \<noteq> JNull \<and>
   wf_json ping_message \<and>
   length (json_dumps ping_message) = 16 \<and>
   fst (send_message server0 partial_send_socket ping_message) = True \<and>
   loads (json_dumps ping_message) = Some (Inr ping_message) \<and>
   fst (receive_message env_loads server0
          (socket0 [Data (tx (snd (snd (send_message server0 partial_send_socket ping_message))))])) =
     JNull \<and>
   ping_message \<noteq> JNull"
proof -
  let ?p = "json_dumps long_file_request"
  have w: "wf_json long_file_request" by (simp add: long_file_request_def)
  have lt: "length ?p < 2 ^ 32" by (simp only: length_long_file_request) simp
  have big: "1048576 < length ?p" by (simp only: length_long_file_request)
  have b: "tx_plan (socket0 []) = []" by (simp add: socket0_def)
  note s = send_message_ok [OF b lt, of server0]
  from lt obtain prefix where p: "to_bytes4 (length ?p) = Inr prefix"
    by (simp add: to_bytes4_def)
  have t: "tx (snd (snd (send_message server0 (socket0 []) long_file_request))) = prefix @ ?p"
    unfolding s by (simp add: frame_def p socket0_def del: json_dumps.simps)
  have sw: "rx_starts_with (rx (socket0 [Data (prefix @ ?p)])) prefix"
    by (simp add: socket0_def rx_starts_with_prefix del: json_dumps.simps)
  have c1: "fst (send_message server0 (socket0 []) long_file_request) = True"
    unfolding s by simp
  have c2: "fst (receive_message env_loads server0
              (socket0 [Data (tx (snd (snd (send_message server0 (socket0 []) long_file_request))))])) =
            JNull"
    unfolding t by (simp add: receive_message_oversize [OF p sw big])
  have c3: "long_file_request \<noteq> JNull" by (simp add: long_file_request_def)
  have w2: "wf_json ping_message" by (simp add: ping_message_def)
  have d1: "length (json_dumps ping_message) = 16" by (simp add: json_dumps_ping)
  have d2: "fst (send_message server0 partial_send_socket ping_message) = True"
    by (simp add: send_message_partial)
  have d3: "fst (receive_message env_loads server0
              (socket0 [Data (tx (snd (snd (send_message server0 partial_send_socket ping_message))))])) =
            JNull"
    unfolding send_message_partial using receive_message_partial [of env_loads] by simp
  have d4: "ping_message \<noteq> JNull" by (simp add: ping_message_def)
  from w c1 loads_json_dumps [OF w] c2 c3 w2 d1 d2 loads_json_dumps [OF w2] d3 d4
  show ?thesis by blast
qed

section \<open>Listing the files of a peer\<close>

lemma length_file_list_request: "length (json_dumps (JDict [(''type'', JStr ''file_list_request'')])) = 29"
  by (simp add: dumps_str_def escape_char_def)

text \<open>
  C7, as the code has it.  When the service lookup finds no service (\<open>find_service\<close> returns
  the empty list), \<open>get_peer_files\<close> returns \<open>None\<close> after logging \<open>P2P service not found\<close>, and
  no connection is opened, whatever \<open>connect\<close> would have done.  The value is not specific to
  the lookup: the method returns the same \<open>None\<close> when \<open>find_service\<close> raises, when the
  service has no \<open>port\<close>, and when \<open>connect\<close> raises.  When the peer answers with a
  \<open>file_list_response\<close> whose list is empty, it returns the empty list \<open>[]\<close>, which is not
  \<open>None\<close>.
\<close>

theorem service_not_found_is_not_empty_list:
  assumes "map_of service ''port'' = Some port" and "connect port = Inr sock"
    and "tx_plan sock = []"
    and "rx_starts_with (rx sock) (frame payload)"
    and "payload \<noteq> []" and "length payload \<le> 1048576"
    and "json_loads ev payload =
           Inr (JDict [(''type'', JStr ''file_list_response''), (''files'', JList [])])"
  shows "get_peer_files ev st peer_address (Inr []) connect =
           (JNull, log_msg st (LogServiceNotFound peer_address), None) \<and>
         fst (get_peer_files ev st peer_address (Inl e) connect) = JNull \<and>
         fst (get_peer_files ev st peer_address (Inr ([] # others)) connect) = JNull \<and>
         fst (get_peer_files ev st peer_address (Inr (service # others)) (\<lambda>port. Inl e)) = JNull \<and>
         fst (get_peer_files ev st peer_address (Inr (service # others)) connect) = JList [] \<and>
         fst (get_peer_files ev st peer_address (Inr []) connect) \<noteq>
           fst (get_peer_files ev st peer_address (Inr (service # others)) connect)"
proof -
  let ?req = "JDict [(''type'', JStr ''file_list_request'')]"
  have a: "get_peer_files ev st peer_address (Inr []) connect =
             (JNull, log_msg st (LogServiceNotFound peer_address), None)"
    by (simp add: get_peer_files_def)
  have a1: "fst (get_peer_files ev st peer_address (Inl e) connect) = JNull"
    by (simp add: get_peer_files_def)
  have a2: "fst (get_peer_files ev st peer_address (Inr ([] # others)) connect) = JNull"
    by (simp add: get_peer_files_def)
  have a3: "fst (get_peer_files ev st peer_address (Inr (service # others)) (\<lambda>port. Inl e)) = JNull"
    by (simp add: get_peer_files_def assms(1))
  have lt: "length (json_dumps ?req) < 2 ^ 32"
    by (simp only: length_file_list_request) simp
  let ?sock1 = "sock\<lparr>tx := tx sock @ frame (json_dumps ?req)\<rparr>"
  note s = send_message_ok [OF assms(3) lt, of st]
  from assms(4) have sw: "rx_starts_with (rx ?sock1) (frame payload)" by simp
  note r = receive_message_frame [OF sw assms(5,6), of ev st, unfolded assms(7)]
  have b: "fst (get_peer_files ev st peer_address (Inr (service # others)) connect) = JList []"
    unfolding get_peer_files_def by (simp add: assms(1,2) s r del: json_dumps.simps)
  from a a1 a2 a3 b show ?thesis by simp
qed

definition empty_list_response :: json where
  "empty_list_response = JDict [(''type'', JStr ''file_list_response''), (''files'', JList [])]"

lemma length_empty_list_response: "length (json_dumps empty_list_response) = 43"
  by (simp add: empty_list_response_def dumps_str_def escape_char_def)

theorem service_not_found_is_not_empty_list_witness:
  "map_of [(''port'', JInt 1)] ''port'' = Some (JInt 1) \<and>
   tx_plan (socket0 [Data (frame (json_dumps empty_list_response))]) = [] \<and>
   rx_starts_with (rx (socket0 [Data (frame (json_dumps empty_list_response))]))
     (frame (json_dumps empty_list_response)) \<and>
   json_dumps empty_list_response \<noteq> [] \<and>
   length (json_dumps empty_list_response) \<le> 1048576 \<and>
   json_loads (env0 empty_list_response) (json_dumps empty_list_response) =
     Inr (JDict [(''type'', JStr ''file_list_response''), (''files'', JList [])]) \<and>
   get_peer_files (env0 empty_list_response) server0 ''00:11:22:33:44:55'' (Inr [])
       (\<lambda>port. Inr (socket0 [Data (frame (json_dumps empty_list_response))])) =
     (JNull, log_msg server0 (LogServiceNotFound ''00:11:22:33:44:55''), None) \<and>
   fst (get_peer_files (env0 empty_list_response) server0 ''00:11:22:33:44:55''
          (Inr [[(''port'', JInt 1)]])
          (\<lambda>port. Inr (socket0 [Data (frame (json_dumps empty_list_response))]))) = JList []"
proof -
  let ?p = "json_dumps empty_list_response"
  let ?sock = "socket0 [Data (frame ?p)]"
  let ?connect = "\<lambda>port::json. (Inr ?sock :: error + socket)"
  have h1: "map_of [(''port'', JInt 1)] ''port'' = Some (JInt 1)" by simp
  have h2: "?connect (JInt 1) = Inr ?sock" by simp
  have h3: "tx_plan ?sock = []" by (simp add: socket0_def)
  have h4: "rx_starts_with (rx ?sock) (frame ?p)"
    by (simp add: socket0_def rx_starts_with_single)
  have h5: "?p \<noteq> []" by (rule json_dumps_nonempty)
  have h6: "length ?p \<le> 1048576" by (simp only: length_empty_list_response)
  have h7: "json_loads (env0 empty_list_response) ?p =
              Inr (JDict [(''type'', JStr ''file_list_response''), (''files'', JList [])])"
    by (simp add: env0_def) (simp add: empty_list_response_def)
  from service_not_found_is_not_empty_list
         [OF h1 h2 h3 h4 h5 h6 h7, of server0 "''00:11:22:33:44:55''" BluetoothError "[]"]
  have "get_peer_files (env0 empty_list_response) server0 ''00:11:22:33:44:55'' (Inr []) ?connect =
          (JNull, log_msg server0 (LogServiceNotFound ''00:11:22:33:44:55''), None) \<and>
        fst (get_peer_files (env0 empty_list_response) server0 ''00:11:22:33:44:55''
               (Inr [[(''port'', JInt 1)]]) ?connect) = JList []"
    by blast
  with h1 h3 h4 h5 h6 h7 show ?thesis by blast
qed

text \<open>The outcome of a failed lookup is not typed: it is the value that a failed connection
  gives, and the value that a raising \<open>find_service\<close> gives.\<close>

theorem lookup_failure_same_as_other_failures:
  "fst (get_peer_files (env0 JNull) server0 ''00:11:22:33:44:55'' (Inr [])
          (\<lambda>port. Inl BluetoothError)) = JNull \<and>
   fst (get_peer_files (env0 JNull) server0 ''00:11:22:33:44:55'' (Inr [[(''port'', JInt 1)]])
          (\<lambda>port. Inl BluetoothError)) = JNull \<and>
   fst (get_peer_files (env0 JNull) server0 ''00:11:22:33:44:55'' (Inl BluetoothError)
          (\<lambda>port. Inl BluetoothError)) = JNull"
  by (simp add: get_peer_files_def)

section \<open>The download loop\<close>

lemma rx_recv_spec:
  assumes "0 < k" and "rx_recv es k = (r, es')"
  shows "case r of
           Inl e \<Rightarrow> rx_avail es = 0 \<and> RxError \<in> set es
         | Inr chunk \<Rightarrow>
             length chunk \<le> k \<and> (RxError \<notin> set es \<longrightarrow> RxError \<notin> set es') \<and>
             (if chunk = [] then rx_avail es = 0 \<and> RxError \<notin> set es
              else rx_take (length chunk) es = chunk \<and> rx_drop (length chunk) es = es' \<and>
                   length chunk \<le> rx_avail es)"
  using assms
proof (induction es k arbitrary: r es' rule: rx_recv.induct)
  case (1 n)
  then show ?case by auto
next
  case (2 es n)
  then show ?case by auto
next
  case (3 bs es n)
  show ?case
  proof (cases "bs = []")
    case True
    with 3 show ?thesis by (auto split: sum.splits if_splits)
  next
    case False
    show ?thesis
    proof (cases "length bs \<le> n")
      case True
      with False 3(2,3) show ?thesis by auto
    next
      case nle: False
      with False 3(2,3) show ?thesis by (auto simp: min_def)
    qed
  qed
qed

lemma recv_file_loop_spec:
  assumes "recv_file_loop sock n r w = (exc, sock', r', w')"
  shows "r \<le> r' \<and>
         concat w' = concat w @ rx_take (r' - r) (rx sock) \<and>
         r' - r \<le> rx_avail (rx sock) \<and>
         (int r \<le> n \<longrightarrow> int r' \<le> n) \<and>
         (\<forall>c \<in> set w'. c \<in> set w \<or> length c \<le> 4096) \<and>
         (exc \<noteq> None \<longrightarrow> int r' < n) \<and>
         (nat (n - int r) \<le> rx_avail (rx sock) \<longrightarrow> exc = None \<and> (int r \<le> n \<longrightarrow> int r' = n)) \<and>
         (RxError \<notin> set (rx sock) \<longrightarrow>
            exc = None \<and> (int r' < n \<longrightarrow> r' - r = rx_avail (rx sock)))"
  using assms
proof (induction sock n r w arbitrary: exc sock' r' w' rule: recv_file_loop.induct)
  case (1 sock file_size bytes_received written)
  show ?case
  proof (cases "int bytes_received < file_size")
    case False
    with "1.prems" show ?thesis
      by (subst (asm) recv_file_loop.simps) auto
  next
    case True
    let ?k = "nat (min 4096 (file_size - int bytes_received))"
    from True have k: "0 < ?k" by simp
    have k4: "?k \<le> 4096" by simp
    obtain q es where rr: "rx_recv (rx sock) ?k = (q, es)"
      by (cases "rx_recv (rx sock) ?k")
    then have rc: "recv sock ?k = (q, sock\<lparr>rx := es\<rparr>)"
      by (simp add: recv_def)
    note sp = rx_recv_spec [OF k rr]
    show ?thesis
    proof (cases q)
      case (Inl e)
      with "1.prems" True rc have "exc = Some e" "r' = bytes_received" "w' = written"
        by (subst (asm) recv_file_loop.simps; simp add: Let_def)+
      with sp Inl True show ?thesis by auto
    next
      case (Inr chunk)
      show ?thesis
      proof (cases "chunk = []")
        case ce: True
        with "1.prems" True rc Inr have "exc = None" "r' = bytes_received" "w' = written"
          by (subst (asm) recv_file_loop.simps; simp add: Let_def)+
        with sp Inr ce True show ?thesis by auto
      next
        case cn: False
        from "1.prems" True rc Inr cn
        have eq: "recv_file_loop (sock\<lparr>rx := es\<rparr>) file_size (bytes_received + length chunk)
                    (written @ [chunk]) = (exc, sock', r', w')"
          by (subst (asm) recv_file_loop.simps) (simp add: Let_def)
        note ih = "1.IH" [OF True refl rc [symmetric, unfolded Inr] refl cn eq]
        from sp Inr cn have lc: "length chunk \<le> ?k"
          and tk: "rx_take (length chunk) (rx sock) = chunk"
          and dr: "rx_drop (length chunk) (rx sock) = es"
          and av: "length chunk \<le> rx_avail (rx sock)"
          and ne: "RxError \<notin> set (rx sock) \<longrightarrow> RxError \<notin> set es"
          by simp_all
        from av dr have av': "rx_avail es = rx_avail (rx sock) - length chunk"
          using rx_avail_drop [of "length chunk" "rx sock"] by simp
        from ih have le: "bytes_received + length chunk \<le> r'" by simp
        then have split: "r' - bytes_received = length chunk + (r' - (bytes_received + length chunk))"
          by simp
        have tk2: "rx_take (r' - bytes_received) (rx sock) =
                     chunk @ rx_take (r' - (bytes_received + length chunk)) es"
          by (subst split, subst rx_take_add) (simp add: tk dr)
        from lc k4 have c4: "length chunk \<le> 4096" by simp
        from lc True have inb: "int (bytes_received + length chunk) \<le> file_size" by simp
        show ?thesis
          using ih le tk2 c4 av av' ne inb by (auto simp: nat_le_iff)
      qed
    qed
  qed
qed

section \<open>Peer discovery: the registry of \<open>BluetoothPeerDiscovery\<close>\<close>

text \<open>
  Timestamps are the values of \<open>time.time()\<close>, taken as real numbers, and passed to the
  operations as \<open>current_time\<close>.  The dicts \<open>self.peers\<close> and \<open>self.last_seen\<close> are association
  lists in insertion order: an assignment to a present key keeps its place, a new key goes to
  the end (\<open>AList.update\<close>), \<open>del\<close> is \<open>AList.delete\<close>.
\<close>

record peer_info =
  pi_address :: string
  pi_name :: string
  pi_port :: json
  pi_service_name :: json
  pi_first_seen :: real
  pi_last_seen :: real

datatype discovery_event = PeerFound peer_info | PeerLost peer_info

record discovery =
  peers :: "(string \<times> peer_info) list"
  last_seen :: "(string \<times> real) list"
  on_peer_found :: bool
  on_peer_lost :: bool
  discovery_events :: "discovery_event list"

text \<open>\<open>_add_peer\<close>; \<open>name\<close> is \<open>None\<close> when the device scan found no name.\<close>

definition add_peer ::
    "discovery \<Rightarrow> string \<Rightarrow> string option \<Rightarrow> service \<Rightarrow> real \<Rightarrow> discovery" where
  "add_peer st address name service_info current_time =
     (let is_new_peer = (map_of (peers st) address = None);
          peer_info =
            \<lparr>pi_address = address,
             pi_name = (case name of
                          None \<Rightarrow> ''Device-'' @ filter (\<lambda>c. c \<noteq> CHR '':'') address
                        | Some n \<Rightarrow>
                            if n = [] then ''Device-'' @ filter (\<lambda>c. c \<noteq> CHR '':'') address else n),
             pi_port = (case map_of service_info ''port'' of
                          None \<Rightarrow> JStr ''Unknown'' | Some v \<Rightarrow> v),
             pi_service_name = (case map_of service_info ''name'' of
                                  None \<Rightarrow> JStr ''Unknown'' | Some v \<Rightarrow> v),
             pi_first_seen = (case map_of (peers st) address of
                                None \<Rightarrow> current_time
                              | Some old \<Rightarrow> pi_first_seen old),
             pi_last_seen = current_time\<rparr>;
          st1 = st\<lparr>peers := AList.update address peer_info (peers st),
                   last_seen := AList.update address current_time (last_seen st)\<rparr>
      in if is_new_peer \<and> on_peer_found st1
         then st1\<lparr>discovery_events := discovery_events st1 @ [PeerFound peer_info]\<rparr>
         else st1)"




text \<open>One pass of \<open>_cleanup_loop\<close>: the addresses whose last sighting is more than 180 seconds
  old, and the removal of each that is still in \<open>self.peers\<close>.\<close>

fun remove_peers :: "discovery \<Rightarrow> string list \<Rightarrow> discovery" where
  "remove_peers st [] = st"
| "remove_peers st (address # addresses) =
     (case map_of (peers st) address of
        None \<Rightarrow> remove_peers st addresses
      | Some peer_info \<Rightarrow>
          (let st1 = st\<lparr>peers := AList.delete address (peers st),
                        last_seen := AList.delete address (last_seen st)\<rparr>;
               st2 = (if on_peer_lost st1
                      then st1\<lparr>discovery_events := discovery_events st1 @ [PeerLost peer_info]\<rparr>
                      else st1)
           in remove_peers st2 addresses))"


text \<open>A sequence of upserts, each with its time.\<close>

fun add_peers :: "discovery \<Rightarrow> (string \<times> string option \<times> service \<times> real) list \<Rightarrow> discovery" where
  "add_peers st [] = st"
| "add_peers st ((address, name, service_info, current_time) # ops) =
     add_peers (add_peer st address name service_info current_time) ops"

subsection \<open>Effects of one upsert\<close>

lemma peers_add_peer:
  "map_of (peers (add_peer st a name svc t)) b =
     (if b = a
      then Some \<lparr>pi_address = a,
             pi_name = (case name of
                          None \<Rightarrow> ''Device-'' @ filter (\<lambda>c. c \<noteq> CHR '':'') a
                        | Some n \<Rightarrow>
                            if n = [] then ''Device-'' @ filter (\<lambda>c. c \<noteq> CHR '':'') a else n),
             pi_port = (case map_of svc ''port'' of None \<Rightarrow> JStr ''Unknown'' | Some v \<Rightarrow> v),
             pi_service_name = (case map_of svc ''name'' of None \<Rightarrow> JStr ''Unknown'' | Some v \<Rightarrow> v),
             pi_first_seen = (case map_of (peers st) a of
                                None \<Rightarrow> t | Some old \<Rightarrow> pi_first_seen old),
             pi_last_seen = t\<rparr>
      else map_of (peers st) b)"
  by (simp add: add_peer_def Let_def update_conv')

lemma last_seen_add_peer:
  "map_of (last_seen (add_peer st a name svc t)) b =
     (if b = a then Some t else map_of (last_seen st) b)"
  by (simp add: add_peer_def Let_def update_conv')

lemma on_peer_lost_add_peer [simp]:
  "on_peer_lost (add_peer st a name svc t) = on_peer_lost st"
  by (simp add: add_peer_def Let_def)

lemma on_peer_found_add_peer [simp]:
  "on_peer_found (add_peer st a name svc t) = on_peer_found st"
  by (simp add: add_peer_def Let_def)

lemma distinct_peers_add_peer:
  "distinct (map fst (peers st)) \<Longrightarrow> distinct (map fst (peers (add_peer st a name svc t)))"
  by (simp add: add_peer_def Let_def distinct_update)






lemma list_all_update:
  "list_all P ps \<Longrightarrow> P (a, v) \<Longrightarrow> list_all P (AList.update a v ps)"
  by (induction ps) auto


subsection \<open>The active peers\<close>







subsection \<open>The cleanup pass\<close>


lemma on_peer_lost_remove_peers [simp]:
  "on_peer_lost (remove_peers st as) = on_peer_lost st"
  by (induction as arbitrary: st) (auto simp: Let_def split: option.splits)







subsection \<open>Sequences of upserts\<close>





lemma on_peer_lost_add_peers [simp]: "on_peer_lost (add_peers st ops) = on_peer_lost st"
  by (induction st ops rule: add_peers.induct) auto

definition discovery0 :: discovery where
  "discovery0 = \<lparr>peers = [], last_seen = [], on_peer_found = True, on_peer_lost = True,
                 discovery_events = []\<rparr>"

section \<open>The time to live of a peer\<close>







section \<open>The timestamps of a record\<close>

definition upsert_times ::
    "string \<Rightarrow> (string \<times> string option \<times> service \<times> real) list \<Rightarrow> real list" where
  "upsert_times a ops = map (\<lambda>op. snd (snd (snd op))) (filter (\<lambda>op. fst op = a) ops)"

lemma first_seen_add_peers:
  "map_option pi_first_seen (map_of (peers (add_peers st ops)) a) =
     (case map_of (peers st) a of
        Some old \<Rightarrow> Some (pi_first_seen old)
      | None \<Rightarrow> (case upsert_times a ops of [] \<Rightarrow> None | t # ts \<Rightarrow> Some t))"
proof (induction st ops rule: add_peers.induct)
  case (1 st)
  show ?case by (simp add: upsert_times_def split: option.splits)
next
  case (2 st b name svc t ops)
  show ?case unfolding add_peers.simps 2
    by (simp add: peers_add_peer upsert_times_def split: option.splits)
qed

lemma last_seen_add_peers:
  "map_option pi_last_seen (map_of (peers (add_peers st ops)) a) =
     (if upsert_times a ops = [] then map_option pi_last_seen (map_of (peers st) a)
      else Some (last (upsert_times a ops)))"
  "map_of (last_seen (add_peers st ops)) a =
     (if upsert_times a ops = [] then map_of (last_seen st) a
      else Some (last (upsert_times a ops)))"
proof (induction st ops rule: add_peers.induct)
  case (1 st)
  {
    case 1 show ?case by (simp add: upsert_times_def)
  next
    case 2 show ?case by (simp add: upsert_times_def)
  }
next
  case (2 st b name svc t ops)
  {
    case 1 show ?case unfolding add_peers.simps "2.IH"(1)
      by (simp add: peers_add_peer upsert_times_def)
  next
    case 2 show ?case unfolding add_peers.simps "2.IH"(2)
      by (simp add: last_seen_add_peer upsert_times_def)
  }
qed

definition stamps_ok :: "real \<Rightarrow> discovery \<Rightarrow> bool" where
  "stamps_ok t0 st =
     list_all (\<lambda>item. pi_first_seen (snd item) \<le> pi_last_seen (snd item) \<and>
                      pi_last_seen (snd item) \<le> t0) (peers st)"

lemma stamps_ok_add_peer:
  assumes "stamps_ok t0 st" and "t0 \<le> t"
  shows "stamps_ok t (add_peer st a name svc t)"
proof -
  have old: "\<And>b i. (b, i) \<in> set (peers st) \<Longrightarrow>
               pi_first_seen i \<le> pi_last_seen i \<and> pi_last_seen i \<le> t0"
    using assms(1) by (auto simp: stamps_ok_def list_all_iff)
  have w: "list_all (\<lambda>item. pi_first_seen (snd item) \<le> pi_last_seen (snd item) \<and>
                      pi_last_seen (snd item) \<le> t) (peers st)"
    using old assms(2) by (fastforce simp: list_all_iff)
  have f: "(case map_of (peers st) a of None \<Rightarrow> t | Some old \<Rightarrow> pi_first_seen old) \<le> t"
  proof (cases "map_of (peers st) a")
    case None
    then show ?thesis by simp
  next
    case (Some i)
    have "pi_first_seen i \<le> t" using old [OF map_of_SomeD [OF Some]] assms(2) by simp
    then show ?thesis using Some by simp
  qed
  show ?thesis
    unfolding stamps_ok_def add_peer_def Let_def
    using f by (auto intro!: list_all_update w)
qed

lemma stamps_ok_add_peers:
  "stamps_ok t0 st \<Longrightarrow> sorted (t0 # map (\<lambda>op. snd (snd (snd op))) ops) \<Longrightarrow>
   \<exists>t. stamps_ok t (add_peers st ops)"
proof (induction st ops arbitrary: t0 rule: add_peers.induct)
  case (1 st)
  then show ?case by auto
next
  case (2 st b name svc t ops)
  have le: "t0 \<le> t" using 2(3) by simp
  have s: "sorted (t # map (\<lambda>op. snd (snd (snd op))) ops)" using 2(3) by simp
  show ?case unfolding add_peers.simps
    by (rule 2(1) [OF stamps_ok_add_peer [OF 2(2) le] s])
qed

text \<open>
  C9.  Take a registry in which every record has \<open>first_seen \<le> last_seen \<le> t0\<close> (the empty
  registry of \<open>__init__\<close> is one), and any sequence of upserts at times that do not decrease
  from \<open>t0\<close> on.  After the sequence, and so after each of its operations, every record has
  \<open>first_seen \<le> last_seen\<close>.  The \<open>first_seen\<close> of an address is the one it had before the
  sequence, if it had a record, and the time of its first upsert otherwise; its \<open>last_seen\<close>,
  in the record and in the dict \<open>self.last_seen\<close>, is the time of its last upsert.
\<close>

theorem first_seen_set_once_last_seen_updated:
  assumes "stamps_ok t0 st"
    and "sorted (t0 # map (\<lambda>op. snd (snd (snd op))) ops)"
  shows "list_all (\<lambda>item. pi_first_seen (snd item) \<le> pi_last_seen (snd item))
           (peers (add_peers st ops)) \<and>
         map_option pi_first_seen (map_of (peers (add_peers st ops)) a) =
           (case map_of (peers st) a of
              Some old \<Rightarrow> Some (pi_first_seen old)
            | None \<Rightarrow> (case upsert_times a ops of [] \<Rightarrow> None | t # ts \<Rightarrow> Some t)) \<and>
         map_option pi_last_seen (map_of (peers (add_peers st ops)) a) =
           (if upsert_times a ops = [] then map_option pi_last_seen (map_of (peers st) a)
            else Some (last (upsert_times a ops))) \<and>
         map_of (last_seen (add_peers st ops)) a =
           (if upsert_times a ops = [] then map_of (last_seen st) a
            else Some (last (upsert_times a ops)))"
proof -
  obtain t where "stamps_ok t (add_peers st ops)"
    using stamps_ok_add_peers [OF assms] by blast
  then have "list_all (\<lambda>item. pi_first_seen (snd item) \<le> pi_last_seen (snd item))
               (peers (add_peers st ops))"
    by (simp add: stamps_ok_def list_all_iff)
  then show ?thesis
    using first_seen_add_peers [of st ops a] last_seen_add_peers [of st ops a] by simp
qed

definition upserts_aba :: "(string \<times> string option \<times> service \<times> real) list" where
  "upserts_aba =
     [(''00:11:22:33:44:55'', Some ''laptop'', [(''port'', JInt 3)], 1000),
      (''66:77:88:99:AA:BB'', None, [], 1100),
      (''00:11:22:33:44:55'', Some ''laptop'', [(''port'', JInt 3)], 1150)]"

theorem first_seen_set_once_last_seen_updated_witness:
  "stamps_ok 1000 discovery0 \<and>
   sorted (1000 # map (\<lambda>op. snd (snd (snd op))) upserts_aba) \<and>
   map_option pi_first_seen
     (map_of (peers (add_peers discovery0 upserts_aba)) ''00:11:22:33:44:55'') = Some 1000 \<and>
   map_option pi_last_seen
     (map_of (peers (add_peers discovery0 upserts_aba)) ''00:11:22:33:44:55'') = Some 1150 \<and>
   map_of (last_seen (add_peers discovery0 upserts_aba)) ''00:11:22:33:44:55'' = Some 1150"
proof -
  have h1: "stamps_ok 1000 discovery0" by (simp add: stamps_ok_def discovery0_def)
  have h2: "sorted (1000 # map (\<lambda>op. snd (snd (snd op))) upserts_aba)"
    by (simp add: upserts_aba_def)
  have p: "map_of (peers discovery0) ''00:11:22:33:44:55'' = None"
    by (simp add: discovery0_def)
  have u: "upsert_times ''00:11:22:33:44:55'' upserts_aba = [1000, 1150]"
    by (simp add: upsert_times_def upserts_aba_def)
  from first_seen_set_once_last_seen_updated [OF h1 h2, of "''00:11:22:33:44:55''"]
  have "map_option pi_first_seen
          (map_of (peers (add_peers discovery0 upserts_aba)) ''00:11:22:33:44:55'') = Some 1000 \<and>
        map_option pi_last_seen
          (map_of (peers (add_peers discovery0 upserts_aba)) ''00:11:22:33:44:55'') = Some 1150 \<and>
        map_of (last_seen (add_peers discovery0 upserts_aba)) ''00:11:22:33:44:55'' = Some 1150"
    unfolding p u by simp
  with h1 h2 show ?thesis by blast
qed

end
